theory Spec2Isabelle
  imports Main "HOL-Library.Multiset" "HOL-Library.Char_ord" "HOL-Library.List_Lexorder" "HOL-Library.Product_Lexorder"
begin

section \<open>Strings\<close>

text \<open>
  Query text and table data are Python text strings.  They are modelled as HOL strings
  (lists of 8-bit characters, the code points of the default \<^verbatim>\<open>latin-1\<close> encoding).
  \<^verbatim>\<open>str.rstrip()\<close>, \<^verbatim>\<open>str.strip()\<close> remove the characters for which
  \<^verbatim>\<open>isspace()\<close> holds; in the 8-bit range these are the code points 9..13, 28..32,
  0x85 and 0xA0.
\<close>

definition is_space :: "char \<Rightarrow> bool" where
  "is_space c =
     (let v = (of_char c :: nat)
      in (9 \<le> v \<and> v \<le> 13) \<or> (28 \<le> v \<and> v \<le> 32) \<or> v = 133 \<or> v = 160)"

definition lstrip :: "string \<Rightarrow> string" where
  "lstrip s = dropWhile is_space s"

definition rstrip :: "string \<Rightarrow> string" where
  "rstrip s = rev (dropWhile is_space (rev s))"

definition strip :: "string \<Rightarrow> string" where
  "strip s = rstrip (lstrip s)"

text \<open>\<^verbatim>\<open>s.replace(a, b)\<close> for single characters \<open>a\<close> and \<open>b\<close>.\<close>

definition replace_char :: "char \<Rightarrow> char \<Rightarrow> string \<Rightarrow> string" where
  "replace_char a b s = map (\<lambda>c. if c = a then b else c) s"

text \<open>\<^verbatim>\<open>s.find(sep)\<close> for a single character: the first index, \<open>None\<close> for \<open>-1\<close>.\<close>

fun find_char :: "char \<Rightarrow> string \<Rightarrow> nat option" where
  "find_char sep [] = None"
| "find_char sep (c # cs) =
     (if c = sep then Some 0 else map_option Suc (find_char sep cs))"

lemma find_char_less: "find_char sep s = Some i \<Longrightarrow> i < length s"
  by (induction s arbitrary: i) (auto split: if_splits)

text \<open>\<^verbatim>\<open>s.split(sep)\<close> for a single character.\<close>

fun split_on :: "char \<Rightarrow> string \<Rightarrow> string list" where
  "split_on sep [] = [[]]"
| "split_on sep (c # cs) =
     (if c = sep then [] # split_on sep cs
      else (case split_on sep cs of
              [] \<Rightarrow> [[c]]
            | r # rs \<Rightarrow> (c # r) # rs))"

text \<open>\<^verbatim>\<open>sep.join(parts)\<close>.\<close>

fun join :: "string \<Rightarrow> string list \<Rightarrow> string" where
  "join sep [] = []"
| "join sep [p] = p"
| "join sep (p # q # ps) = p @ sep @ join sep (q # ps)"

section \<open>Comment stripping\<close>

abbreviation backslash :: char where "backslash \<equiv> CHR 0x5C"
abbreviation squote :: char where "squote \<equiv> CHR 0x27"
abbreviation dquote :: char where "dquote \<equiv> CHR 0x22"
abbreviation tab :: char where "tab \<equiv> CHR 0x09"
abbreviation newline :: char where "newline \<equiv> CHR 0x0A"

text \<open>
  \<^verbatim>\<open>is_escaped_quote(cline, i)\<close>.  The source reads \<^verbatim>\<open>cline[i - 2]\<close> only when
  \<open>i \<ge> 2\<close>: for \<open>i = 1\<close> the second test has already returned or the conjunction
  stops at its first operand.
\<close>

definition is_escaped_quote :: "string \<Rightarrow> nat \<Rightarrow> bool" where
  "is_escaped_quote cline i =
     (if i = 0 then False
      else if i = 1 \<and> cline ! (i - 1) = backslash then True
      else if cline ! (i - 1) = backslash \<and> cline ! (i - 2) \<noteq> backslash then True
      else False)"

text \<open>The \<^verbatim>\<open>for i in xrange6(len(cline))\<close> loop of \<^verbatim>\<open>strip_comments\<close>.\<close>

function strip_comments_loop :: "string \<Rightarrow> nat \<Rightarrow> char option \<Rightarrow> string" where
  "strip_comments_loop cline i cur_quote_mark =
     (if i < length cline then
        (let c = cline ! i in
         if cur_quote_mark = None \<and> c = CHR ''#'' then rstrip (take i cline)
         else if cur_quote_mark = None \<and> (c = squote \<or> c = dquote)
           then strip_comments_loop cline (i + 1) (Some c)
         else if cur_quote_mark \<noteq> None \<and> Some c = cur_quote_mark \<and> \<not> is_escaped_quote cline i
           then strip_comments_loop cline (i + 1) None
         else strip_comments_loop cline (i + 1) cur_quote_mark)
      else cline)"
  by pat_completeness auto
termination
  by (relation "measure (\<lambda>(cline, i, q). length cline - i)") auto

declare strip_comments_loop.simps [simp del]

definition strip_comments :: "string \<Rightarrow> string" where
  "strip_comments cline =
     (let cline = rstrip cline;
          cline = replace_char tab (CHR '' '') cline
      in strip_comments_loop cline 0 None)"

text \<open>
  The quote state in words: before position \<open>0\<close> no literal is open; a quote character met
  outside a literal opens one; inside a literal the same quote character closes it unless
  it is escaped; every other character leaves the state as it is.
\<close>

fun active_quote_before :: "string \<Rightarrow> nat \<Rightarrow> char option" where
  "active_quote_before cline 0 = None"
| "active_quote_before cline (Suc i) =
     (case active_quote_before cline i of
        None \<Rightarrow> (if cline ! i = squote \<or> cline ! i = dquote then Some (cline ! i) else None)
      | Some q \<Rightarrow> (if cline ! i = q \<and> \<not> is_escaped_quote cline i then None else Some q))"

definition unquoted_hash :: "string \<Rightarrow> nat \<Rightarrow> bool" where
  "unquoted_hash cline i \<longleftrightarrow>
     i < length cline \<and> cline ! i = CHR ''#'' \<and> active_quote_before cline i = None"

section \<open>Record iterator\<close>

text \<open>
  \<^verbatim>\<open>rows(f, chunksize, sep)\<close> is a generator; the model returns the list of the records
  it yields.  The stream \<open>f\<close> is the text still to be read, \<^verbatim>\<open>f.read(chunksize)\<close>
  takes its first \<open>chunksize\<close> characters.  \<open>rows_inner\<close> is the inner
  \<^verbatim>\<open>while True\<close> loop on one chunk: it returns the records yielded, the carry
  \<^verbatim>\<open>incomplete_row\<close> and what is left of the chunk.
\<close>

function rows_inner :: "char \<Rightarrow> string option \<Rightarrow> string \<Rightarrow> string list \<times> string option \<times> string" where
  "rows_inner sep incomplete_row chunk =
     (case find_char sep chunk of
        None \<Rightarrow> ([], incomplete_row, chunk)
      | Some i \<Rightarrow>
          (let y = (case incomplete_row of
                      Some r \<Rightarrow> r @ take i chunk
                    | None \<Rightarrow> take i chunk);
               (ys, incomplete_row', chunk') = rows_inner sep None (drop (i + 1) chunk)
           in (y # ys, incomplete_row', chunk')))"
  by pat_completeness auto
termination
  by (relation "measure (\<lambda>(sep, r, chunk). length chunk)")
     (auto dest: find_char_less)

function rows_outer :: "nat \<Rightarrow> char \<Rightarrow> string option \<Rightarrow> string \<Rightarrow> string list" where
  "rows_outer chunksize sep incomplete_row f =
     (let chunk = take chunksize f in
      if chunk = [] then
        (case incomplete_row of
           Some r \<Rightarrow> (if r \<noteq> [] then [r] else [])
         | None \<Rightarrow> [])
      else
        (case rows_inner sep incomplete_row chunk of
           (ys, incomplete_row', chunk') \<Rightarrow>
             ys @ rows_outer chunksize sep
                    (case incomplete_row' of
                       Some r \<Rightarrow> Some (r @ chunk')
                     | None \<Rightarrow> Some chunk')
                    (drop chunksize f)))"
  by pat_completeness auto
termination
  by (relation "measure (\<lambda>(chunksize, sep, r, f). length f)") auto

definition rows :: "string \<Rightarrow> nat \<Rightarrow> char \<Rightarrow> string list" where
  "rows f chunksize sep = rows_outer chunksize sep None f"

text \<open>
  The records in words: the separator-free runs between separators, the last run being a
  record only when it is not empty.
\<close>

definition records_of :: "char \<Rightarrow> string \<Rightarrow> string list" where
  "records_of sep stream =
     (let parts = split_on sep stream
      in if last parts = [] then butlast parts else parts)"

text \<open>The carry as text: no carry and an empty carry read the same.\<close>

fun carry :: "string option \<Rightarrow> string" where
  "carry None = []"
| "carry (Some r) = r"

definition trim_last :: "string list \<Rightarrow> string list" where
  "trim_last parts = (if last parts = [] then butlast parts else parts)"

section \<open>Tokens and the clause splitter\<close>

text \<open>
  \<^verbatim>\<open>str.upper()\<close> on the letters \<open>a\<close> to \<open>z\<close>.  The keywords compared against
  upper-cased text are ASCII words, and no other 8-bit character upper-cases to an ASCII
  letter sequence occurring in them.
\<close>

definition upper_char :: "char \<Rightarrow> char" where
  "upper_char c =
     (case map_of (zip ''abcdefghijklmnopqrstuvwxyz'' ''ABCDEFGHIJKLMNOPQRSTUVWXYZ'') c of
        Some u \<Rightarrow> u
      | None \<Rightarrow> c)"

definition upper :: "string \<Rightarrow> string" where
  "upper s = map upper_char s"

datatype TokenType = RAW | STRING_LITERAL | WHITESPACE | ALPHANUM_RAW | SYMBOL_RAW

record Token =
  ttype :: TokenType
  content :: string

definition Tok :: "TokenType \<Rightarrow> string \<Rightarrow> Token" where
  "Tok ty c = \<lparr>ttype = ty, content = c\<rparr>"

text \<open>
  The exceptions that leave a function of the program: the two exception classes of the
  program, a failed \<^verbatim>\<open>assert\<close>, and a \<^verbatim>\<open>TypeError\<close> with its text that a library call
  raises outside every \<^verbatim>\<open>try\<close>.
\<close>

datatype error =
    RBParsingError string
  | RbqlRuntimeError string
  | AssertionError
  | TypeError string

text \<open>\<^verbatim>\<open>join_tokens\<close>: the contents concatenated, then stripped.\<close>

definition join_tokens :: "Token list \<Rightarrow> string" where
  "join_tokens tokens = strip (concat (map content tokens))"

text \<open>
  \<^verbatim>\<open>class Pattern\<close>: the text, its words as \<open>ALPHANUM_RAW\<close> tokens with a
  \<open>WHITESPACE\<close> token between two words, and the number of these tokens.
\<close>

record Pattern =
  p_text :: string
  p_tokens :: "Token list"
  p_size :: nat

fun pattern_tokens :: "string list \<Rightarrow> Token list" where
  "pattern_tokens [] = []"
| "pattern_tokens [f] = [Tok ALPHANUM_RAW f]"
| "pattern_tokens (f # g # fs) =
     Tok ALPHANUM_RAW f # Tok WHITESPACE '' '' # pattern_tokens (g # fs)"

definition mk_Pattern :: "string \<Rightarrow> Pattern" where
  "mk_Pattern ptext =
     (let toks = pattern_tokens (split_on (CHR '' '') ptext)
      in \<lparr>p_text = ptext, p_tokens = toks, p_size = length toks\<rparr>)"

text \<open>The slice \<^verbatim>\<open>xs[a:b]\<close> for \<open>0 \<le> a\<close> and \<open>0 \<le> b\<close>; it never raises.\<close>

definition slice :: "'a list \<Rightarrow> nat \<Rightarrow> nat \<Rightarrow> 'a list" where
  "slice xs a b = take (b - a) (drop a xs)"

text \<open>
  \<^verbatim>\<open>consume_action(patterns, tokens, idx)\<close>.  The caller passes \<open>idx < len(tokens)\<close>;
  \<open>consume_patterns\<close> is the \<^verbatim>\<open>for pattern in patterns\<close> loop.
\<close>

fun consume_patterns :: "Pattern list \<Rightarrow> Token list \<Rightarrow> nat \<Rightarrow> string option \<times> nat" where
  "consume_patterns [] tokens idx = (None, idx + 1)"
| "consume_patterns (pattern # patterns) tokens idx =
     (if idx + p_size pattern \<ge> length tokens then consume_patterns patterns tokens idx
      else
        (let input_slice = slice tokens idx (idx + p_size pattern) in
         if map (\<lambda>t. upper (content t)) input_slice \<noteq> map content (p_tokens pattern)
           then consume_patterns patterns tokens idx
         else if map ttype input_slice \<noteq> map ttype (p_tokens pattern)
           then consume_patterns patterns tokens idx
         else (Some (p_text pattern), idx + p_size pattern)))"

definition consume_action :: "Pattern list \<Rightarrow> Token list \<Rightarrow> nat \<Rightarrow> string option \<times> nat" where
  "consume_action patterns tokens idx =
     (if ttype (tokens ! idx) = STRING_LITERAL then (None, idx + 1)
      else consume_patterns patterns tokens idx)"

text \<open>\<^verbatim>\<open>strip_tokens\<close>: the tokens of content \<open>' '\<close> removed at both ends.\<close>

definition strip_tokens :: "Token list \<Rightarrow> Token list" where
  "strip_tokens tokens =
     (let tokens = dropWhile (\<lambda>t. content t = '' '') tokens
      in rev (dropWhile (\<lambda>t. content t = '' '') (rev tokens)))"

text \<open>
  \<^verbatim>\<open>sorted(xs, key=key, reverse=reverse)\<close>: a stable sort; with \<^verbatim>\<open>reverse\<close> the
  order is descending and elements of equal key still keep their original order.
\<close>

definition sorted_py :: "('a \<Rightarrow> 'k::linorder) \<Rightarrow> bool \<Rightarrow> 'a list \<Rightarrow> 'a list" where
  "sorted_py key reverse xs =
     (if reverse then rev (sort_key key (rev xs)) else sort_key key xs)"

definition pattern_texts :: "string list" where
  "pattern_texts =
     [''STRICT LEFT JOIN'', ''LEFT JOIN'', ''INNER JOIN'', ''SELECT DISTINCT'', ''SELECT'',
      ''ORDER BY'', ''WHERE'']"

definition patterns :: "Pattern list" where
  "patterns = map mk_Pattern (sorted_py length True pattern_texts)"

text \<open>
  A Python \<^verbatim>\<open>dict\<close> as an association list in insertion order with at most one entry
  per key: storing under a present key replaces the value in place.
\<close>

type_synonym ('k, 'v) dict = "('k \<times> 'v) list"

fun dict_set :: "('k, 'v) dict \<Rightarrow> 'k \<Rightarrow> 'v \<Rightarrow> ('k, 'v) dict" where
  "dict_set [] k v = [(k, v)]"
| "dict_set ((k', v') # d) k v =
     (if k' = k then (k, v) # d else (k', v') # dict_set d k v)"

definition dict_has :: "('k, 'v) dict \<Rightarrow> 'k \<Rightarrow> bool" where
  "dict_has d k \<longleftrightarrow> map_of d k \<noteq> None"

lemma patterns_eq:
  "patterns =
     [mk_Pattern ''STRICT LEFT JOIN'', mk_Pattern ''SELECT DISTINCT'', mk_Pattern ''INNER JOIN'',
      mk_Pattern ''LEFT JOIN'', mk_Pattern ''ORDER BY'', mk_Pattern ''SELECT'',
      mk_Pattern ''WHERE'']"
  by (simp add: patterns_def sorted_py_def pattern_texts_def)

lemma mk_Pattern_size_pos: "0 < p_size (mk_Pattern ptext)"
proof -
  have "pattern_tokens ws \<noteq> []" if "ws \<noteq> []" for ws
    using that by (cases ws rule: pattern_tokens.cases) auto
  moreover have "split_on (CHR '' '') ptext \<noteq> []"
    by (induction ptext) (auto split: list.splits)
  ultimately show ?thesis by (simp add: mk_Pattern_def Let_def)
qed

lemma consume_patterns_advance:
  "\<forall>p \<in> set ps. 0 < p_size p \<Longrightarrow> idx < snd (consume_patterns ps tokens idx)"
  by (induction ps) (auto simp: Let_def)

lemma consume_action_advance: "idx < snd (consume_action patterns tokens idx)"
proof -
  have "\<forall>p \<in> set patterns. 0 < p_size p"
    by (auto simp: patterns_def mk_Pattern_size_pos)
  then show ?thesis
    by (simp add: consume_action_def consume_patterns_advance)
qed

lemma consume_action_next:
  "(action, i_next) = consume_action patterns tokens i \<Longrightarrow> i < i_next"
  using consume_action_advance[of i tokens] by (metis snd_conv)

text \<open>
  \<^verbatim>\<open>separate_actions\<close>: \<open>separate_loop\<close> is its \<^verbatim>\<open>while i < len(tokens)\<close> loop,
  with the state \<open>result\<close>, \<open>prev_action\<close>, \<open>k\<close>, \<open>i\<close>; the raise ends it.
\<close>

definition store_prev :: "(string, Token list) dict \<Rightarrow> string option \<Rightarrow> Token list \<Rightarrow> nat \<Rightarrow> nat
    \<Rightarrow> (string, Token list) dict" where
  "store_prev result prev_action tokens k i =
     (case prev_action of
        Some pa \<Rightarrow> dict_set result pa (strip_tokens (slice tokens k i))
      | None \<Rightarrow> result)"

definition more_than_one :: "string \<Rightarrow> error" where
  "more_than_one action =
     RBParsingError (''More than one '' @ [dquote] @ action @ [dquote] @ '' statements found'')"

function separate_loop ::
  "Token list \<Rightarrow> (string, Token list) dict \<Rightarrow> string option \<Rightarrow> nat \<Rightarrow> nat
     \<Rightarrow> error + (string, Token list) dict" where
  "separate_loop tokens result prev_action k i =
     (if i < length tokens then
        (case consume_action patterns tokens i of
           (None, i_next) \<Rightarrow> separate_loop tokens result prev_action k i_next
         | (Some action, i_next) \<Rightarrow>
             (let result = store_prev result prev_action tokens k i in
              if dict_has result action then Inl (more_than_one action)
              else separate_loop tokens result (Some action) i_next i_next))
      else Inr (store_prev result prev_action tokens k i))"
  by pat_completeness auto
termination
  by (relation "measure (\<lambda>(tokens, result, prev_action, k, i). length tokens - i)")
     (auto dest!: consume_action_next)

declare separate_loop.simps [simp del]

definition separate_actions :: "Token list \<Rightarrow> error + (string, Token list) dict" where
  "separate_actions tokens = separate_loop tokens [] None 0 0"

text \<open>
  The scan in words: the positions visited by the splitter and the phrase recognized at
  each, in order.  A position inside a recognized phrase is not visited.
\<close>

function recognized_from :: "Token list \<Rightarrow> nat \<Rightarrow> (string \<times> nat) list" where
  "recognized_from tokens i =
     (if i < length tokens then
        (case consume_action patterns tokens i of
           (None, i_next) \<Rightarrow> recognized_from tokens i_next
         | (Some action, i_next) \<Rightarrow> (action, i) # recognized_from tokens i_next)
      else [])"
  by pat_completeness auto
termination
  by (relation "measure (\<lambda>(tokens, i). length tokens - i)")
     (auto dest!: consume_action_next)

declare recognized_from.simps [simp del]

text \<open>
  The first phrase of a sequence that was seen before (in \<open>seen\<close> or earlier in the
  sequence), if there is one.
\<close>

fun first_repeat :: "'a set \<Rightarrow> 'a list \<Rightarrow> 'a option" where
  "first_repeat seen [] = None"
| "first_repeat seen (a # as) =
     (if a \<in> seen then Some a else first_repeat (insert a seen) as)"

text \<open>
  A phrase at a position, in words: the phrase's words are the upper-cased contents of
  the tokens at \<open>idx\<close>, \<open>idx + 2\<close>, \<dots>, which are \<open>ALPHANUM_RAW\<close> tokens, and the
  tokens between them are \<open>WHITESPACE\<close> tokens of content \<open>' '\<close>.
\<close>

definition phrase_size :: "string \<Rightarrow> nat" where
  "phrase_size phrase = 2 * length (split_on (CHR '' '') phrase) - 1"

fun words_at :: "string list \<Rightarrow> Token list \<Rightarrow> nat \<Rightarrow> bool" where
  "words_at [] tokens idx = True"
| "words_at [w] tokens idx =
     (upper (content (tokens ! idx)) = w \<and> ttype (tokens ! idx) = ALPHANUM_RAW)"
| "words_at (w # v # ws) tokens idx =
     (upper (content (tokens ! idx)) = w \<and> ttype (tokens ! idx) = ALPHANUM_RAW \<and>
      content (tokens ! (idx + 1)) = '' '' \<and> ttype (tokens ! (idx + 1)) = WHITESPACE \<and>
      words_at (v # ws) tokens (idx + 2))"

definition phrase_at :: "string \<Rightarrow> Token list \<Rightarrow> nat \<Rightarrow> bool" where
  "phrase_at phrase tokens idx = words_at (split_on (CHR '' '') phrase) tokens idx"

text \<open>
  Auxiliary predicates: \<open>pmatch\<close> is the test \<^verbatim>\<open>consume_action\<close> makes for one
  pattern; \<open>fits\<close> says that a phrase stands at a position and ends strictly before the
  end of the token list.
\<close>

definition pmatch :: "Pattern \<Rightarrow> Token list \<Rightarrow> nat \<Rightarrow> bool" where
  "pmatch p tokens idx \<longleftrightarrow>
     idx + p_size p < length tokens \<and>
     map (\<lambda>t. upper (content t)) (slice tokens idx (idx + p_size p)) = map content (p_tokens p) \<and>
     map ttype (slice tokens idx (idx + p_size p)) = map ttype (p_tokens p)"

definition fits :: "string \<Rightarrow> Token list \<Rightarrow> nat \<Rightarrow> bool" where
  "fits phrase tokens idx \<longleftrightarrow>
     idx + phrase_size phrase < length tokens \<and> phrase_at phrase tokens idx"

definition recognizes :: "string \<Rightarrow> Token list \<Rightarrow> nat \<Rightarrow> bool" where
  "recognizes phrase tokens idx \<longleftrightarrow>
     (consume_patterns patterns tokens idx = (Some phrase, idx + phrase_size phrase) \<longleftrightarrow>
        fits phrase tokens idx \<and> \<not> (phrase = ''SELECT'' \<and> fits ''SELECT DISTINCT'' tokens idx))"

section \<open>Column rewriter\<close>

text \<open>
  \<^verbatim>\<open>column_var_regex\<close> is \<^verbatim>\<open>^a([1-9][0-9]*)$\<close> and \<^verbatim>\<open>bcolumn_var_regex\<close> is
  \<^verbatim>\<open>^b([1-9][0-9]*)$\<close>.  \<open>column_match c text\<close> is \<^verbatim>\<open>regex.match(text)\<close> for the
  letter \<open>c\<close>: the digits of group 1 when the text matches.  In Python \<^verbatim>\<open>$\<close> matches
  at the end of the text and also just before a newline that ends the text.
\<close>

definition is_digit :: "char \<Rightarrow> bool" where
  "is_digit c \<longleftrightarrow> CHR ''0'' \<le> c \<and> c \<le> CHR ''9''"

definition column_match :: "char \<Rightarrow> string \<Rightarrow> string option" where
  "column_match letter s =
     (case s of
        [] \<Rightarrow> None
      | c # rest \<Rightarrow>
          (let ds = takeWhile is_digit rest; tl = dropWhile is_digit rest in
           if c = letter \<and> ds \<noteq> [] \<and> hd ds \<noteq> CHR ''0'' \<and> (tl = [] \<or> tl = [newline])
           then Some ds else None))"

text \<open>\<^verbatim>\<open>int(digits)\<close> and \<^verbatim>\<open>str(n)\<close> for natural numbers in decimal.\<close>

definition digit_val :: "char \<Rightarrow> nat" where
  "digit_val c = of_char c - of_char (CHR ''0'')"

definition int_of_digits :: "string \<Rightarrow> nat" where
  "int_of_digits ds = foldl (\<lambda>n c. 10 * n + digit_val c) 0 ds"

definition digit_char :: "nat \<Rightarrow> char" where
  "digit_char d = ''0123456789'' ! d"

fun str_of_nat :: "nat \<Rightarrow> string" where
  "str_of_nat n = (if n < 10 then [digit_char n] else str_of_nat (n div 10) @ [digit_char (n mod 10)])"

declare str_of_nat.simps [simp del]

definition replace_rbql_var :: "string \<Rightarrow> string option" where
  "replace_rbql_var s =
     (case column_match (CHR ''a'') s of
        Some ds \<Rightarrow> Some (''fields['' @ str_of_nat (int_of_digits ds - 1) @ '']'')
      | None \<Rightarrow>
          (case column_match (CHR ''b'') s of
             Some ds \<Rightarrow> Some (''bfields['' @ str_of_nat (int_of_digits ds - 1) @ '']'')
           | None \<Rightarrow> None))"

text \<open>
  \<^verbatim>\<open>replace_column_vars\<close> and \<^verbatim>\<open>replace_star_vars\<close> assign to the content of the token
  objects of the list they are given; the model updates the list at the index.
\<close>

function replace_column_vars_loop :: "Token list \<Rightarrow> nat \<Rightarrow> Token list" where
  "replace_column_vars_loop tokens i =
     (if i < length tokens then
        (if ttype (tokens ! i) = STRING_LITERAL then replace_column_vars_loop tokens (i + 1)
         else
           (case replace_rbql_var (content (tokens ! i)) of
              Some replaced_py_var \<Rightarrow>
                replace_column_vars_loop
                  (tokens[i := (tokens ! i)\<lparr>content := replaced_py_var\<rparr>]) (i + 1)
            | None \<Rightarrow> replace_column_vars_loop tokens (i + 1)))
      else tokens)"
  by pat_completeness auto
termination
  by (relation "measure (\<lambda>(tokens, i). length tokens - i)") auto

declare replace_column_vars_loop.simps [simp del]

definition replace_column_vars :: "Token list \<Rightarrow> Token list" where
  "replace_column_vars tokens = replace_column_vars_loop tokens 0"

definition endswith_comma :: "string \<Rightarrow> bool" where
  "endswith_comma s \<longleftrightarrow> s \<noteq> [] \<and> last s = CHR '',''"

definition startswith_comma :: "string \<Rightarrow> bool" where
  "startswith_comma s \<longleftrightarrow> s \<noteq> [] \<and> hd s = CHR '',''"

text \<open>
  The body of the loop of \<^verbatim>\<open>replace_star_vars\<close> at index \<open>i\<close>: \<open>Keep\<close> for each
  \<^verbatim>\<open>continue\<close>, \<open>Fail\<close> for a failed \<^verbatim>\<open>assert\<close>, \<open>Replace\<close> when the assignment is
  reached.  The index \<open>j\<close> of the source can be \<open>-1\<close>, so it is an integer.
\<close>

datatype star_step = Keep | Replace | Fail

definition star_left :: "Token list \<Rightarrow> nat \<Rightarrow> star_step" where
  "star_left tokens i =
     (let j = int i - 1;
          j = (if j \<ge> 0 \<and> content (tokens ! nat j) = '' '' then j - 1 else j)
      in if j \<ge> 0 then
           (if content (tokens ! nat j) = '' '' then Fail
            else if \<not> endswith_comma (content (tokens ! nat j)) then Keep
            else Replace)
         else Replace)"

definition star_right :: "Token list \<Rightarrow> nat \<Rightarrow> star_step" where
  "star_right tokens i =
     (let j = i + 1;
          j = (if j < length tokens \<and> content (tokens ! j) = '' '' then j + 1 else j)
      in if j < length tokens then
           (if content (tokens ! j) = '' '' then Fail
            else if \<not> startswith_comma (content (tokens ! j)) then Keep
            else Replace)
         else Replace)"

definition star_body :: "Token list \<Rightarrow> nat \<Rightarrow> star_step" where
  "star_body tokens i =
     (if ttype (tokens ! i) = STRING_LITERAL then Keep
      else if content (tokens ! i) \<noteq> ''*'' then Keep
      else (case star_left tokens i of
              Replace \<Rightarrow> star_right tokens i
            | Keep \<Rightarrow> Keep
            | Fail \<Rightarrow> Fail))"

function replace_star_vars_loop :: "Token list \<Rightarrow> nat \<Rightarrow> error + Token list" where
  "replace_star_vars_loop tokens i =
     (if i < length tokens then
        (case star_body tokens i of
           Keep \<Rightarrow> replace_star_vars_loop tokens (i + 1)
         | Fail \<Rightarrow> Inl AssertionError
         | Replace \<Rightarrow>
             replace_star_vars_loop (tokens[i := (tokens ! i)\<lparr>content := ''star_line''\<rparr>]) (i + 1))
      else Inr tokens)"
  by pat_completeness auto
termination
  by (relation "measure (\<lambda>(tokens, i). length tokens - i)") auto

declare replace_star_vars_loop.simps [simp del]

definition replace_star_vars :: "Token list \<Rightarrow> error + Token list" where
  "replace_star_vars tokens = replace_star_vars_loop tokens 0"

text \<open>
  An isolated token, in words: the nearest token on each side, not counting one
  \<open>' '\<close> token directly beside it, is absent or has a comma facing the token.
\<close>

definition left_neighbour :: "Token list \<Rightarrow> nat \<Rightarrow> Token option" where
  "left_neighbour tokens i =
     (if i = 0 then None
      else if content (tokens ! (i - 1)) \<noteq> '' '' then Some (tokens ! (i - 1))
      else if i = 1 then None
      else Some (tokens ! (i - 2)))"

definition right_neighbour :: "Token list \<Rightarrow> nat \<Rightarrow> Token option" where
  "right_neighbour tokens i =
     (if i + 1 \<ge> length tokens then None
      else if content (tokens ! (i + 1)) \<noteq> '' '' then Some (tokens ! (i + 1))
      else if i + 2 \<ge> length tokens then None
      else Some (tokens ! (i + 2)))"

definition isolated :: "Token list \<Rightarrow> nat \<Rightarrow> bool" where
  "isolated tokens i \<longleftrightarrow>
     (case left_neighbour tokens i of
        None \<Rightarrow> True
      | Some t \<Rightarrow> endswith_comma (content t)) \<and>
     (case right_neighbour tokens i of
        None \<Rightarrow> True
      | Some t \<Rightarrow> startswith_comma (content t))"

text \<open>
  The invariant of the loop of \<^verbatim>\<open>replace_star_vars\<close>: the current list differs from
  the original one only at earlier indices, where an isolated \<open>*\<close> outside a string
  literal has become \<open>star_line\<close>.
\<close>

definition star_inv :: "Token list \<Rightarrow> Token list \<Rightarrow> nat \<Rightarrow> bool" where
  "star_inv cur orig i \<longleftrightarrow>
     length cur = length orig \<and>
     (\<forall>j < length orig.
        cur ! j = orig ! j \<or>
        (j < i \<and> ttype (orig ! j) \<noteq> STRING_LITERAL \<and> content (orig ! j) = ''*'' \<and>
         isolated orig j \<and> cur ! j = (orig ! j)\<lparr>content := ''star_line''\<rparr>))"

text \<open>No two neighbouring tokens both have the content \<open>' '\<close>.\<close>

fun no_adjacent_spaces :: "Token list \<Rightarrow> bool" where
  "no_adjacent_spaces [] = True"
| "no_adjacent_spaces [t] = True"
| "no_adjacent_spaces (t # u # ts) =
     (\<not> (content t = '' '' \<and> content u = '' '') \<and> no_adjacent_spaces (u # ts))"

section \<open>Join expression parser\<close>

definition syntax_err_msg :: string where
  "syntax_err_msg =
     ''Incorrect join syntax. Must be: '' @ [dquote] @
     ''<JOIN> /path/to/B/table on a<i> == b<j>'' @ [dquote]"

text \<open>
  \<^verbatim>\<open>parse_join_expression(tokens)\<close>.  The words are \<^verbatim>\<open>join_tokens(tokens).split(' ')\<close>;
  \<^verbatim>\<open>tokens[1]\<close> and \<^verbatim>\<open>tokens[3]\<close> are read only when there are five words.  The
  result holds what \<^verbatim>\<open>replace_rbql_var\<close> returns for the two column words.
\<close>

definition parse_join_expression ::
  "Token list \<Rightarrow> error + (string \<times> string option \<times> string option)" where
  "parse_join_expression tokens =
     (let tokens = split_on (CHR '' '') (join_tokens tokens) in
      if length tokens \<noteq> 5 \<or> upper (tokens ! 1) \<noteq> ''ON'' \<or> tokens ! 3 \<noteq> ''==''
      then Inl (RBParsingError syntax_err_msg)
      else
        (let tokens =
               (if column_match (CHR ''a'') (tokens ! 4) \<noteq> None
                then tokens[2 := tokens ! 4, 4 := tokens ! 2] else tokens)
         in if column_match (CHR ''a'') (tokens ! 2) = None \<or>
               column_match (CHR ''b'') (tokens ! 4) = None
            then Inl (RBParsingError syntax_err_msg)
            else Inr (tokens ! 0, replace_rbql_var (tokens ! 2), replace_rbql_var (tokens ! 4))))"

text \<open>The field references the rewriting produces for column numbers given in digits.\<close>

definition fields_ref :: "string \<Rightarrow> string" where
  "fields_ref ds = ''fields['' @ str_of_nat (int_of_digits ds - 1) @ '']''"

definition bfields_ref :: "string \<Rightarrow> string" where
  "bfields_ref ds = ''bfields['' @ str_of_nat (int_of_digits ds - 1) @ '']''"

section \<open>The LIKE predicate\<close>

text \<open>
  \<^verbatim>\<open>Flike._like_to_regex(pattern)\<close>.  \<^verbatim>\<open>re.escape\<close> belongs to the Python library and
  differs between Python versions, so it is the parameter \<open>esc\<close>.  \<open>like_loop\<close> is the
  \<^verbatim>\<open>while i < len(pattern)\<close> loop with the state \<open>p\<close>, \<open>i\<close>, \<open>converted\<close>.
\<close>

function like_loop :: "(string \<Rightarrow> string) \<Rightarrow> string \<Rightarrow> nat \<Rightarrow> nat \<Rightarrow> string \<Rightarrow> string" where
  "like_loop esc pattern p i converted =
     (if i < length pattern then
        (if pattern ! i \<in> {CHR ''_'', CHR ''%''} then
           (let converted = converted @ esc (slice pattern p i);
                p = i + 1;
                converted = (if pattern ! i = CHR ''_'' then converted @ ''.''
                             else converted @ ''.*'')
            in like_loop esc pattern p (i + 1) converted)
         else like_loop esc pattern p (i + 1) converted)
      else ''^'' @ (converted @ esc (slice pattern p i)) @ ''$'')"
  by pat_completeness auto
termination
  by (relation "measure (\<lambda>(esc, pattern, p, i, converted). length pattern - i)") auto

declare like_loop.simps [simp del]

definition like_to_regex :: "(string \<Rightarrow> string) \<Rightarrow> string \<Rightarrow> string" where
  "like_to_regex esc pattern = like_loop esc pattern 0 0 []"

text \<open>
  \<^verbatim>\<open>Flike.__call__(text, pattern)\<close>.  The object's state is its cache, a dictionary from
  patterns to compiled regular expressions.  \<^verbatim>\<open>re.compile\<close> and the \<^verbatim>\<open>match\<close> method of a
  compiled expression (is there a match at the start of the text) are the parameters
  \<open>re_compile\<close> and \<open>rx_match\<close>.
\<close>

definition flike_call ::
  "(string \<Rightarrow> string) \<Rightarrow> (string \<Rightarrow> 'rx) \<Rightarrow> ('rx \<Rightarrow> string \<Rightarrow> bool)
     \<Rightarrow> (string \<rightharpoonup> 'rx) \<Rightarrow> string \<Rightarrow> string \<Rightarrow> bool \<times> (string \<rightharpoonup> 'rx)" where
  "flike_call esc re_compile rx_match cache subj pattern =
     (let cache =
            (if cache pattern = None
             then cache(pattern \<mapsto> re_compile (like_to_regex esc pattern))
             else cache)
      in (case cache pattern of
            Some rgx \<Rightarrow> (rx_match rgx subj, cache)
          | None \<Rightarrow> (False, cache)))"

text \<open>
  A sequence of calls \<^verbatim>\<open>flike(text, pattern)\<close> on the module's one \<^verbatim>\<open>Flike\<close> object,
  each call seeing the cache the earlier ones left.
\<close>

fun flike_calls ::
  "(string \<Rightarrow> string) \<Rightarrow> (string \<Rightarrow> 'rx) \<Rightarrow> ('rx \<Rightarrow> string \<Rightarrow> bool)
     \<Rightarrow> (string \<rightharpoonup> 'rx) \<Rightarrow> (string \<times> string) list \<Rightarrow> bool list" where
  "flike_calls esc re_compile rx_match cache [] = []"
| "flike_calls esc re_compile rx_match cache ((subj, pattern) # calls) =
     (case flike_call esc re_compile rx_match cache subj pattern of
        (r, cache') \<Rightarrow> r # flike_calls esc re_compile rx_match cache' calls)"

text \<open>
  The regular expression in words: the segments of the pattern between the wildcard
  characters are escaped, each \<open>_\<close> becomes \<open>.\<close>, each \<open>%\<close> becomes \<open>.*\<close>, and the whole is
  put between \<open>^\<close> and \<open>$\<close>.  \<open>like_body esc seg rest\<close> holds the segment read so far.
\<close>

fun like_body :: "(string \<Rightarrow> string) \<Rightarrow> string \<Rightarrow> string \<Rightarrow> string" where
  "like_body esc seg [] = esc seg"
| "like_body esc seg (c # cs) =
     (if c = CHR ''_'' then esc seg @ ''.'' @ like_body esc [] cs
      else if c = CHR ''%'' then esc seg @ ''.*'' @ like_body esc [] cs
      else like_body esc (seg @ [c]) cs)"

definition like_regex :: "(string \<Rightarrow> string) \<Rightarrow> string \<Rightarrow> string" where
  "like_regex esc pattern = ''^'' @ like_body esc [] pattern @ ''$''"

definition cache_ok :: "(string \<Rightarrow> string) \<Rightarrow> (string \<Rightarrow> 'rx) \<Rightarrow> (string \<rightharpoonup> 'rx) \<Rightarrow> bool" where
  "cache_ok esc re_compile cache \<longleftrightarrow>
     (\<forall>p rgx. cache p = Some rgx \<longrightarrow> rgx = re_compile (like_to_regex esc p))"

section \<open>Executor\<close>

text \<open>
  The generated script \<^verbatim>\<open>py_script_body\<close>.  A field value is a string or \<^verbatim>\<open>None\<close>;
  \<^verbatim>\<open>str6\<close> turns it into text.  A field sequence is an \<^verbatim>\<open>rbql_list\<close> or a plain Python
  list: indexing out of range raises \<^verbatim>\<open>BadFieldError(idx)\<close> for the first and
  \<^verbatim>\<open>IndexError\<close> for the second.  An index may be negative, as in Python.
\<close>

datatype pyval = PNone | PStr string

fun str6 :: "pyval \<Rightarrow> string" where
  "str6 PNone = ''None''"
| "str6 (PStr s) = s"

datatype field_seq = RbqlList "pyval list" | PlainList "pyval list"

fun items :: "field_seq \<Rightarrow> pyval list" where
  "items (RbqlList xs) = xs"
| "items (PlainList xs) = xs"

text \<open>
  What an expression of the query can raise inside the \<^verbatim>\<open>try\<close> of \<^verbatim>\<open>rb_transform\<close>:
  \<^verbatim>\<open>BadFieldError\<close> with its index, or any other exception with its text \<^verbatim>\<open>str(e)\<close>.
\<close>

datatype exc = BadFieldError int | Exception string

definition getitem :: "field_seq \<Rightarrow> int \<Rightarrow> exc + pyval" where
  "getitem s idx =
     (let xs = items s; n = int (length xs); j = (if idx < 0 then idx + n else idx)
      in if 0 \<le> j \<and> j < n then Inr (xs ! nat j)
         else (case s of
                 RbqlList _ \<Rightarrow> Inl (BadFieldError idx)
               | PlainList _ \<Rightarrow> Inl (Exception ''list index out of range'')))"

definition str_of_int :: "int \<Rightarrow> string" where
  "str_of_int i = (if i < 0 then ''-'' @ str_of_nat (nat (- i)) else str_of_nat (nat i))"

text \<open>\<^verbatim>\<open>line.rstrip('\r\n')\<close>.\<close>

definition rstrip_crlf :: "string \<Rightarrow> string" where
  "rstrip_crlf s = rev (dropWhile (\<lambda>c. c = CHR 0x0D \<or> c = newline) (rev s))"

text \<open>
  \<^verbatim>\<open>read_join_table\<close>.  The B file is given as its content, \<open>None\<close> when the path is not a
  file.  The key expression \<^verbatim>\<open>rhs_join_var\<close> is \<^verbatim>\<open>bfields[j]\<close> for the index \<open>j\<close> that
  \<^verbatim>\<open>parse_join_expression\<close> produced.  \<open>read_join_loop\<close> is the loop over the numbered
  records.  Indexing an \<^verbatim>\<open>rbql_list\<close> raises nothing but \<^verbatim>\<open>BadFieldError\<close>, so the
  branch for another exception is never taken.
\<close>

fun read_join_loop ::
  "char \<Rightarrow> int \<Rightarrow> nat \<Rightarrow> string list \<Rightarrow> (pyval, field_seq) dict \<Rightarrow> nat
     \<Rightarrow> error + ((pyval, field_seq) dict \<times> nat)" where
  "read_join_loop DLM rhs_join_var il [] result fields_max_len = Inr (result, fields_max_len)"
| "read_join_loop DLM rhs_join_var il (line # lines) result fields_max_len =
     (let line = rstrip_crlf line;
          bfields = RbqlList (map PStr (split_on DLM line));
          fields_max_len = max fields_max_len (length (items bfields))
      in case getitem bfields rhs_join_var of
           Inl (BadFieldError bad_idx) \<Rightarrow>
             Inl (RbqlRuntimeError
                   (''No '' @ [dquote] @ ''b'' @ str_of_int (bad_idx + 1) @ [dquote] @
                    '' column at line: '' @ str_of_nat il @ '' in '' @ [dquote] @ ''B'' @
                    [dquote] @ '' table''))
         | Inl (Exception msg) \<Rightarrow> Inl (RbqlRuntimeError msg)
         | Inr key \<Rightarrow>
             if dict_has result key
             then Inl (RbqlRuntimeError
                        (''Join column must be unique in right-hand-side '' @ [dquote] @ ''B'' @
                         [dquote] @ '' table''))
             else read_join_loop DLM rhs_join_var (il + 1) lines
                    (dict_set result key bfields) fields_max_len)"

definition read_join_table ::
  "char \<Rightarrow> int \<Rightarrow> string \<Rightarrow> string option \<Rightarrow> error + ((pyval, field_seq) dict \<times> nat)" where
  "read_join_table DLM rhs_join_var join_table_path b_file =
     (case b_file of
        None \<Rightarrow> Inl (RbqlRuntimeError (''Table B: '' @ join_table_path @ '' is not accessible''))
      | Some src_text \<Rightarrow>
          read_join_loop DLM rhs_join_var 1 (rows src_text 1024 newline) [] 0)"

text \<open>The joiners: \<^verbatim>\<open>none_joiner\<close> returns \<^verbatim>\<open>None\<close>, the classes hold the loaded table.\<close>

datatype joiner_type = none_joiner | InnerJoinerT | LeftJoinerT | StrictLeftJoinerT

datatype joiner =
    InnerJoiner "(pyval, field_seq) dict" nat
  | LeftJoiner "(pyval, field_seq) dict" nat
  | StrictLeftJoiner "(pyval, field_seq) dict" nat

definition make_joiner ::
  "joiner_type \<Rightarrow> char \<Rightarrow> int \<Rightarrow> string \<Rightarrow> string option \<Rightarrow> error + joiner option" where
  "make_joiner jt DLM rhs_join_var rhs_table_path b_file =
     (case jt of
        none_joiner \<Rightarrow> Inr None
      | InnerJoinerT \<Rightarrow>
          (case read_join_table DLM rhs_join_var rhs_table_path b_file of
             Inl e \<Rightarrow> Inl e | Inr (d, n) \<Rightarrow> Inr (Some (InnerJoiner d n)))
      | LeftJoinerT \<Rightarrow>
          (case read_join_table DLM rhs_join_var rhs_table_path b_file of
             Inl e \<Rightarrow> Inl e | Inr (d, n) \<Rightarrow> Inr (Some (LeftJoiner d n)))
      | StrictLeftJoinerT \<Rightarrow>
          (case read_join_table DLM rhs_join_var rhs_table_path b_file of
             Inl e \<Rightarrow> Inl e | Inr (d, n) \<Rightarrow> Inr (Some (StrictLeftJoiner d n))))"

text \<open>
  \<^verbatim>\<open>joiner.get(lhs_key)\<close>: the B fields, \<open>None\<close> for Python's \<^verbatim>\<open>None\<close>, or the exception
  of the strict joiner.  The default of \<^verbatim>\<open>LeftJoiner\<close> is the plain list
  \<^verbatim>\<open>[None] * self.fields_max_len\<close>.
\<close>

fun joiner_get :: "joiner \<Rightarrow> pyval \<Rightarrow> exc + field_seq option" where
  "joiner_get (InnerJoiner join_data fields_max_len) lhs_key = Inr (map_of join_data lhs_key)"
| "joiner_get (LeftJoiner join_data fields_max_len) lhs_key =
     Inr (Some (case map_of join_data lhs_key of
                  Some bf \<Rightarrow> bf
                | None \<Rightarrow> PlainList (replicate fields_max_len PNone)))"
| "joiner_get (StrictLeftJoiner join_data fields_max_len) lhs_key =
     (case map_of join_data lhs_key of
        None \<Rightarrow>
          Inl (Exception
                (''In '' @ [dquote] @ ''STRICT LEFT JOIN'' @ [dquote] @
                 '' mode all A table keys must be present in table B. Key '' @ [dquote] @
                 str6 lhs_key @ [dquote] @ '' was not found''))
      | Some bf \<Rightarrow> Inr (Some bf))"

text \<open>
  The row context of one A record, and the parameters that \<^verbatim>\<open>parse_to_py\<close> writes into the
  script.  The WHERE, SELECT and sort key expressions are evaluated by Python: they are
  functions of the row context that return a value or raise.  The join key expression
  \<^verbatim>\<open>lhs_join_var\<close> is \<^verbatim>\<open>fields[i]\<close> for the index \<open>i\<close> that \<^verbatim>\<open>parse_join_expression\<close>
  produced.  The field \<open>fieldsA\<close> is the
  variable \<^verbatim>\<open>fields\<close> of the source.
\<close>

record row_context =
  NR :: nat
  NF :: nat
  fieldsA :: field_seq
  bfields :: "field_seq option"
  star_line :: string

datatype writer_type = SimpleWriter | UniqWriter

record 'k plan =
  writer_kind :: writer_type
  the_joiner :: "joiner option"
  DLM :: char
  lhs_join_var :: int
  where_expression :: "row_context \<Rightarrow> exc + bool"
  select_expression :: "row_context \<Rightarrow> exc + pyval list"
  sort_flag :: bool
  sort_key_expression :: "row_context \<Rightarrow> exc + 'k"
  reverse_flag :: bool
  key_eq :: "'k \<Rightarrow> 'k \<Rightarrow> bool"
  key_less :: "'k \<Rightarrow> 'k \<Rightarrow> bool option"
  lib_sorted :: "bool \<Rightarrow> ('k \<times> string) list \<Rightarrow> string + ('k \<times> string) list"

text \<open>
  The last three fields are the host's part in sorting.  The sort key values have any
  type \<open>'k\<close>; how Python compares two of them is not fixed by the program: \<open>key_eq a b\<close>
  is the equality test that the comparison of tuples makes on two sort keys, and
  \<open>key_less a b\<close> is \<^verbatim>\<open>a < b\<close>, \<open>None\<close> when the comparison raises (in Python 3, a number
  against a string or against \<^verbatim>\<open>None\<close>).  \<open>lib_sorted reverse entries\<close> is what the
  library's \<^verbatim>\<open>sorted\<close> does with entries whose keys are not totally ordered: the text
  of the \<^verbatim>\<open>TypeError\<close> it raises, or the list it returns (with a NaN among the keys the
  order depends on the library's algorithm).
\<close>

text \<open>
  The state of \<^verbatim>\<open>rb_transform\<close>: the buffer \<^verbatim>\<open>unsorted_entries\<close>, the records written to
  the destination and the set \<^verbatim>\<open>seen\<close> of \<^verbatim>\<open>UniqWriter\<close>.  \<open>where_evals\<close> is not in the
  source: it counts the evaluations of the WHERE expression, so that a statement about the
  rows that reach the WHERE predicate can be made.
\<close>

record 'k rb_state =
  unsorted_entries :: "('k \<times> string) list"
  written :: "string list"
  seen :: "string set"
  where_evals :: nat

definition writer_write :: "writer_type \<Rightarrow> string \<Rightarrow> 'k rb_state \<Rightarrow> 'k rb_state" where
  "writer_write w rec st =
     (case w of
        SimpleWriter \<Rightarrow> st\<lparr>written := written st @ [rec]\<rparr>
      | UniqWriter \<Rightarrow>
          (if rec \<in> seen st then st
           else st\<lparr>seen := insert rec (seen st), written := written st @ [rec]\<rparr>))"

text \<open>The two \<^verbatim>\<open>except\<close> clauses of \<^verbatim>\<open>rb_transform\<close>.\<close>

definition runtime_error :: "nat \<Rightarrow> exc \<Rightarrow> error" where
  "runtime_error nr e =
     (case e of
        BadFieldError bad_idx \<Rightarrow>
          RbqlRuntimeError
            (''No '' @ [dquote] @ ''a'' @ str_of_int (bad_idx + 1) @ [dquote] @
             '' column at line: '' @ str_of_nat nr)
      | Exception msg \<Rightarrow>
          RbqlRuntimeError (''Error at line: '' @ str_of_nat nr @ '', Details: '' @ msg))"

text \<open>
  The join step of the \<^verbatim>\<open>try\<close> block: \<open>Inr None\<close> is the \<^verbatim>\<open>continue\<close> for a record
  without partner, \<open>Inr (Some c)\<close> the row context that goes on to the WHERE expression.
\<close>

definition join_step :: "'k plan \<Rightarrow> string \<Rightarrow> row_context \<Rightarrow> exc + row_context option" where
  "join_step pl line c =
     (case the_joiner pl of
        None \<Rightarrow> Inr (Some c)
      | Some joiner \<Rightarrow>
          (case getitem (fieldsA c) (lhs_join_var pl) of
             Inl e \<Rightarrow> Inl e
           | Inr lhs_key \<Rightarrow>
               (case joiner_get joiner lhs_key of
                  Inl e \<Rightarrow> Inl e
                | Inr None \<Rightarrow> Inr None
                | Inr (Some bf) \<Rightarrow>
                    Inr (Some (c\<lparr>bfields := Some bf,
                                 star_line := join [DLM pl] (line # map str6 (items bf))\<rparr>)))))"

text \<open>
  The rest of the \<^verbatim>\<open>try\<close> block for a row context that passed the join step: the state
  after the record, or the exception raised.
\<close>

definition emit_step :: "'k plan \<Rightarrow> row_context \<Rightarrow> 'k rb_state \<Rightarrow> exc + 'k rb_state" where
  "emit_step pl c st =
     (let st = st\<lparr>where_evals := where_evals st + 1\<rparr> in
      case where_expression pl c of
        Inl e \<Rightarrow> Inl e
      | Inr False \<Rightarrow> Inr st
      | Inr True \<Rightarrow>
          (case select_expression pl c of
             Inl e \<Rightarrow> Inl e
           | Inr out_fields \<Rightarrow>
               if sort_flag pl then
                 (case sort_key_expression pl c of
                    Inl e \<Rightarrow> Inl e
                  | Inr sort_key_value \<Rightarrow>
                      Inr (st\<lparr>unsorted_entries := unsorted_entries st @
                                [(sort_key_value, join [DLM pl] (map str6 out_fields))]\<rparr>))
               else Inr (writer_write (writer_kind pl) (join [DLM pl] (map str6 out_fields)) st)))"

definition process_record :: "'k plan \<Rightarrow> nat \<Rightarrow> string \<Rightarrow> 'k rb_state \<Rightarrow> error + 'k rb_state" where
  "process_record pl nr line st =
     (let line = rstrip_crlf line;
          flds = RbqlList (map PStr (split_on (DLM pl) line));
          c = \<lparr>NR = nr, NF = length (items flds), fieldsA = flds, bfields = None,
               star_line = line\<rparr>
      in case join_step pl line c of
           Inl e \<Rightarrow> Inl (runtime_error nr e)
         | Inr None \<Rightarrow> Inr st
         | Inr (Some c) \<Rightarrow>
             (case emit_step pl c st of
                Inl e \<Rightarrow> Inl (runtime_error nr e)
              | Inr st \<Rightarrow> Inr st))"

text \<open>
  The loop over the numbered records of A.  An error ends the run; the state reached
  before it is kept, since what was written stays written.
\<close>

fun rb_loop :: "'k plan \<Rightarrow> nat \<Rightarrow> string list \<Rightarrow> 'k rb_state \<Rightarrow> 'k rb_state \<times> error option" where
  "rb_loop pl nr [] st = (st, None)"
| "rb_loop pl nr (line # lines) st =
     (case process_record pl nr line st of
        Inl e \<Rightarrow> (st, Some e)
      | Inr st \<Rightarrow> rb_loop pl (nr + 1) lines st)"

text \<open>
  \<^verbatim>\<open>a < b\<close> on two entries \<^verbatim>\<open>(sort_key_value, record)\<close>, as Python compares tuples: the
  first components that are not equal decide; the records are strings and are compared
  by code points.
\<close>

definition entry_less ::
  "('k \<Rightarrow> 'k \<Rightarrow> bool) \<Rightarrow> ('k \<Rightarrow> 'k \<Rightarrow> bool option) \<Rightarrow> 'k \<times> string \<Rightarrow> 'k \<times> string
     \<Rightarrow> bool option" where
  "entry_less eq lt a b =
     (if eq (fst a) (fst b) then Some (snd a < snd b) else lt (fst a) (fst b))"

text \<open>
  The keys of a list are totally ordered by the host when, for every two of them, \<^verbatim>\<open><\<close>
  does not raise and exactly one of \<^verbatim>\<open>a == b\<close>, \<^verbatim>\<open>a < b\<close>, \<^verbatim>\<open>b < a\<close> holds, and
  \<^verbatim>\<open><=\<close> is transitive on them.
\<close>

definition key_le :: "('k \<Rightarrow> 'k \<Rightarrow> bool) \<Rightarrow> ('k \<Rightarrow> 'k \<Rightarrow> bool option) \<Rightarrow> 'k \<Rightarrow> 'k \<Rightarrow> bool" where
  "key_le eq lt a b \<longleftrightarrow> eq a b \<or> lt a b = Some True"

definition totally_ordered ::
  "('k \<Rightarrow> 'k \<Rightarrow> bool) \<Rightarrow> ('k \<Rightarrow> 'k \<Rightarrow> bool option) \<Rightarrow> 'k list \<Rightarrow> bool" where
  "totally_ordered eq lt ks =
     list_all (\<lambda>a. list_all (\<lambda>b.
         lt a b \<noteq> None \<and>
         ((eq a b \<and> lt a b \<noteq> Some True \<and> lt b a \<noteq> Some True) \<or>
          (\<not> eq a b \<and> lt a b = Some True \<and> lt b a \<noteq> Some True) \<or>
          (\<not> eq a b \<and> lt a b \<noteq> Some True \<and> lt b a = Some True)) \<and>
         list_all (\<lambda>c. if key_le eq lt a b \<and> key_le eq lt b c then key_le eq lt a c else True)
           ks) ks) ks"

text \<open>
  A stable sort by a comparison \<^verbatim>\<open><\<close>: each element, from the last to the first, is put
  before the first element of the sorted rest that is not less than it.
\<close>

fun insort_less :: "('a \<Rightarrow> 'a \<Rightarrow> bool option) \<Rightarrow> 'a \<Rightarrow> 'a list \<Rightarrow> 'a list" where
  "insort_less lt x [] = [x]"
| "insort_less lt x (y # ys) =
     (if lt y x = Some True then y # insort_less lt x ys else x # y # ys)"

definition stable_sort :: "('a \<Rightarrow> 'a \<Rightarrow> bool option) \<Rightarrow> 'a list \<Rightarrow> 'a list" where
  "stable_sort lt xs = foldr (insort_less lt) xs []"

text \<open>
  \<^verbatim>\<open>sorted(unsorted_entries, reverse = reverse_flag)\<close> is a library call outside the
  \<^verbatim>\<open>try\<close>.  On entries whose keys the host orders totally the comparison of entries is a
  total order and the library's sort is a stable sort by it, so its result is the one
  list that every stable sort returns; with \<^verbatim>\<open>reverse\<close> the library reverses the list,
  sorts it and reverses the result.  On other entries the result is the host's, the
  field \<open>lib_sorted\<close> of the plan.
\<close>

definition py_sorted ::
  "('k \<Rightarrow> 'k \<Rightarrow> bool) \<Rightarrow> ('k \<Rightarrow> 'k \<Rightarrow> bool option)
     \<Rightarrow> (bool \<Rightarrow> ('k \<times> string) list \<Rightarrow> string + ('k \<times> string) list)
     \<Rightarrow> bool \<Rightarrow> ('k \<times> string) list \<Rightarrow> string + ('k \<times> string) list" where
  "py_sorted eq lt lib reverse entries =
     (if totally_ordered eq lt (map fst entries) then
        Inr (if reverse then rev (stable_sort (entry_less eq lt) (rev entries))
             else stable_sort (entry_less eq lt) entries)
      else lib reverse entries)"

text \<open>
  The end of \<^verbatim>\<open>rb_transform\<close>: when the buffer is not empty its entries, which are pairs
  of sort key and record, are sorted as pairs and their records written in that order.
  A \<^verbatim>\<open>TypeError\<close> of the sort leaves the function before anything of the buffer is
  written.
\<close>

definition emit_sorted :: "'k plan \<Rightarrow> 'k rb_state \<Rightarrow> 'k rb_state \<times> error option" where
  "emit_sorted pl st =
     (if unsorted_entries st \<noteq> [] then
        (case py_sorted (key_eq pl) (key_less pl) (lib_sorted pl) (reverse_flag pl)
                (unsorted_entries st) of
           Inl msg \<Rightarrow> (st, Some (TypeError msg))
         | Inr entries \<Rightarrow>
             (foldl (\<lambda>st e. writer_write (writer_kind pl) (snd e) st) st entries, None))
      else (st, None))"

definition rb_init :: "'k rb_state" where
  "rb_init = \<lparr>unsorted_entries = [], written = [], seen = {}, where_evals = 0\<rparr>"

definition rb_transform :: "'k plan \<Rightarrow> string \<Rightarrow> 'k rb_state \<times> error option" where
  "rb_transform pl source =
     (case rb_loop pl 1 (rows source 1024 newline) rb_init of
        (st, Some e) \<Rightarrow> (st, Some e)
      | (st, None) \<Rightarrow> emit_sorted pl st)"

text \<open>
  The direction of ORDER BY in \<^verbatim>\<open>parse_to_py\<close>: the sort key expression and the
  \<^verbatim>\<open>reverse_flag\<close> from the text of the clause.
\<close>

definition endswith :: "string \<Rightarrow> string \<Rightarrow> bool" where
  "endswith s suffix \<longleftrightarrow> length suffix \<le> length s \<and> drop (length s - length suffix) s = suffix"

definition parse_order_by :: "string \<Rightarrow> string \<times> bool" where
  "parse_order_by order_expression =
     (let (order_expression, reverse) =
            (if endswith (upper order_expression) '' DESC''
             then (rstrip (take (length order_expression - length '' DESC'') order_expression), True)
             else (order_expression, False));
          order_expression =
            (if endswith (upper order_expression) '' ASC''
             then rstrip (take (length order_expression - length '' ASC'') order_expression)
             else order_expression)
      in (order_expression, reverse))"

section \<open>Example queries\<close>

text \<open>
  Expressions of the kind the column rewriter produces, as functions of the row context:
  \<^verbatim>\<open>True\<close>, the one-column projections \<^verbatim>\<open>fields[i]\<close> and \<^verbatim>\<open>bfields[i]\<close>, and a constant
  sort key.  Indexing \<^verbatim>\<open>bfields\<close> when no join is configured raises a \<^verbatim>\<open>TypeError\<close>.
\<close>

definition expr_true :: "row_context \<Rightarrow> exc + bool" where
  "expr_true c = Inr True"

definition expr_a :: "int \<Rightarrow> row_context \<Rightarrow> exc + pyval list" where
  "expr_a i c = (case getitem (fieldsA c) i of Inl e \<Rightarrow> Inl e | Inr v \<Rightarrow> Inr [v])"

definition expr_b :: "int \<Rightarrow> row_context \<Rightarrow> exc + pyval list" where
  "expr_b i c =
     (case bfields c of
        None \<Rightarrow> Inl (Exception ([squote] @ ''NoneType'' @ [squote] @ '' object is not subscriptable''))
      | Some bf \<Rightarrow> (case getitem bf i of Inl e \<Rightarrow> Inl e | Inr v \<Rightarrow> Inr [v]))"

definition expr_key :: "int \<Rightarrow> row_context \<Rightarrow> exc + int" where
  "expr_key k c = Inr k"

text \<open>
  Python's comparison of integers, and a library that raises on keys that are not totally
  ordered.
\<close>

definition int_eq :: "int \<Rightarrow> int \<Rightarrow> bool" where
  "int_eq a b \<longleftrightarrow> a = b"

definition int_less :: "int \<Rightarrow> int \<Rightarrow> bool option" where
  "int_less a b = Some (a < b)"

definition lib_raises :: "bool \<Rightarrow> (int \<times> string) list \<Rightarrow> string + (int \<times> string) list" where
  "lib_raises reverse entries = Inl ''unorderable sort keys''"

text \<open>The query \<^verbatim>\<open>select a1 order by 1\<close>, with the direction as a parameter.\<close>

definition tie_plan :: "bool \<Rightarrow> int plan" where
  "tie_plan reverse =
     \<lparr>writer_kind = SimpleWriter, the_joiner = None, DLM = tab, lhs_join_var = 0,
      where_expression = expr_true, select_expression = expr_a 0, sort_flag = True,
      sort_key_expression = expr_key 1, reverse_flag = reverse,
      key_eq = int_eq, key_less = int_less, lib_sorted = lib_raises\<rparr>"

text \<open>
  The query \<^verbatim>\<open>select b<i+1> left join B on a2 == b1\<close>, and the B table with the one
  record \<^verbatim>\<open>car<TAB>gas\<close>.
\<close>

definition left_join_plan :: "joiner option \<Rightarrow> int \<Rightarrow> int plan" where
  "left_join_plan j i =
     \<lparr>writer_kind = SimpleWriter, the_joiner = j, DLM = tab, lhs_join_var = 1,
      where_expression = expr_true, select_expression = expr_b i, sort_flag = False,
      sort_key_expression = expr_key 0, reverse_flag = False,
      key_eq = int_eq, key_less = int_less, lib_sorted = lib_raises\<rparr>"

definition car_table :: string where
  "car_table = ''car'' @ [tab] @ ''gas'' @ [newline]"


text \<open>
  Python 3's comparison of the values a field holds: two strings are compared by code
  points, and \<^verbatim>\<open><\<close> raises when one side is \<^verbatim>\<open>None\<close>.  The library raises the
  \<^verbatim>\<open>TypeError\<close> of the first comparison that fails.
\<close>

definition pyval_eq :: "pyval \<Rightarrow> pyval \<Rightarrow> bool" where
  "pyval_eq a b \<longleftrightarrow> a = b"

fun pyval_less :: "pyval \<Rightarrow> pyval \<Rightarrow> bool option" where
  "pyval_less (PStr a) (PStr b) = Some (a < b)"
| "pyval_less _ _ = None"

definition lib_type_error ::
  "bool \<Rightarrow> (pyval \<times> string) list \<Rightarrow> string + (pyval \<times> string) list" where
  "lib_type_error reverse entries =
     Inl ([squote] @ ''<'' @ [squote] @ '' not supported between instances of '' @
          [squote] @ ''NoneType'' @ [squote] @ '' and '' @ [squote] @ ''str'' @ [squote])"

definition expr_bkey :: "int \<Rightarrow> row_context \<Rightarrow> exc + pyval" where
  "expr_bkey i c =
     (case bfields c of
        None \<Rightarrow> Inl (Exception ([squote] @ ''NoneType'' @ [squote] @ '' object is not subscriptable''))
      | Some bf \<Rightarrow> getitem bf i)"

text \<open>The query \<^verbatim>\<open>select a1 left join B on a2 == b1 order by b2\<close>.\<close>

definition mixed_key_plan :: "joiner option \<Rightarrow> pyval plan" where
  "mixed_key_plan j =
     \<lparr>writer_kind = SimpleWriter, the_joiner = j, DLM = tab, lhs_join_var = 1,
      where_expression = expr_true, select_expression = expr_a 0, sort_flag = True,
      sort_key_expression = expr_bkey 1, reverse_flag = False,
      key_eq = pyval_eq, key_less = pyval_less, lib_sorted = lib_type_error\<rparr>"
text \<open>
  The keys of \<open>K\<close> are ordered by the host like their ranks \<open>r\<close> in a linear order.
\<close>

definition ranked :: "('k \<Rightarrow> 'k \<Rightarrow> bool) \<Rightarrow> ('k \<Rightarrow> 'k \<Rightarrow> bool option) \<Rightarrow> ('k \<Rightarrow> 'l::linorder) \<Rightarrow> 'k set \<Rightarrow> bool" where
  "ranked eq lt r K \<longleftrightarrow> (\<forall>a \<in> K. \<forall>b \<in> K. eq a b = (r a = r b) \<and> lt a b = Some (r a < r b))"

definition rank_entry :: "('k \<Rightarrow> 'l) \<Rightarrow> 'k \<times> string \<Rightarrow> 'l \<times> string" where
  "rank_entry r e = (r (fst e), snd e)"

section \<open>Properties of comment stripping\<close>

lemma strip_comments_loop_step:
  "i < length l \<Longrightarrow> \<not> unquoted_hash l i \<Longrightarrow> q = active_quote_before l i \<Longrightarrow>
     strip_comments_loop l i q = strip_comments_loop l (Suc i) (active_quote_before l (Suc i))"
  by (subst strip_comments_loop.simps) (auto simp: unquoted_hash_def Let_def)

lemma strip_comments_loop_hash:
  "unquoted_hash l k \<Longrightarrow> i \<le> k \<Longrightarrow> (\<forall>j. i \<le> j \<and> j < k \<longrightarrow> \<not> unquoted_hash l j) \<Longrightarrow>
     strip_comments_loop l i (active_quote_before l i) = rstrip (take k l)"
proof (induction "k - i" arbitrary: i)
  case 0
  then have "i = k" by simp
  with "0.prems"(1) show ?case
    by (subst strip_comments_loop.simps) (simp add: unquoted_hash_def)
next
  case (Suc d)
  then have lt: "i < k" and nh: "\<not> unquoted_hash l i" by auto
  from lt Suc.prems(1) have il: "i < length l" by (simp add: unquoted_hash_def)
  have "strip_comments_loop l (Suc i) (active_quote_before l (Suc i)) = rstrip (take k l)"
    using Suc.hyps(1)[of "Suc i"] Suc.hyps(2) Suc.prems lt by auto
  with strip_comments_loop_step[OF il nh refl] show ?case by simp
qed

lemma strip_comments_loop_no_hash:
  "(\<forall>j. i \<le> j \<and> j < length l \<longrightarrow> \<not> unquoted_hash l j) \<Longrightarrow>
     strip_comments_loop l i (active_quote_before l i) = l"
proof (induction "length l - i" arbitrary: i)
  case 0
  then show ?case by (subst strip_comments_loop.simps) simp
next
  case (Suc d)
  then have il: "i < length l" and nh: "\<not> unquoted_hash l i" by auto
  have "strip_comments_loop l (Suc i) (active_quote_before l (Suc i)) = l"
    using Suc.hyps(1)[of "Suc i"] Suc.hyps(2) Suc.prems by auto
  with strip_comments_loop_step[OF il nh refl] show ?case by simp
qed

lemma is_escaped_quote_iff:
  "is_escaped_quote l i \<longleftrightarrow> 0 < i \<and> l ! (i - 1) = backslash \<and> (1 < i \<longrightarrow> l ! (i - 2) \<noteq> backslash)"
  by (cases "i = 1") (auto simp: is_escaped_quote_def)

text \<open>
  Claim C6.  Let \<open>p\<close> be the query line with trailing whitespace removed and every tab
  then replaced by a space.  A quote is escaped iff it is immediately preceded by a
  backslash that is not itself preceded by a backslash.  If \<open>k\<close> is the first position
  of \<open>p\<close> holding a \<open>#\<close> outside any string literal, \<open>strip_comments\<close> returns the
  first \<open>k\<close> characters of \<open>p\<close> with trailing whitespace removed; if \<open>p\<close> has no
  such position it returns \<open>p\<close>.
\<close>

theorem strip_comments_spec:
  assumes "p = replace_char tab (CHR '' '') (rstrip cline)"
  shows "(is_escaped_quote l i \<longleftrightarrow>
            0 < i \<and> l ! (i - 1) = backslash \<and> (1 < i \<longrightarrow> l ! (i - 2) \<noteq> backslash)) \<and>
         (unquoted_hash p k \<and> (\<forall>j<k. \<not> unquoted_hash p j) \<longrightarrow>
            strip_comments cline = rstrip (take k p)) \<and>
         ((\<forall>j<length p. \<not> unquoted_hash p j) \<longrightarrow> strip_comments cline = p)"
proof -
  have sc: "strip_comments cline = strip_comments_loop p 0 (active_quote_before p 0)"
    using assms by (simp add: strip_comments_def)
  have a: "strip_comments cline = rstrip (take k p)"
    if "unquoted_hash p k" "\<forall>j<k. \<not> unquoted_hash p j"
    using strip_comments_loop_hash[OF that(1), of 0] that(2) sc by simp
  have b: "strip_comments cline = p" if "\<forall>j<length p. \<not> unquoted_hash p j"
    using strip_comments_loop_no_hash[of 0 p] that sc by simp
  show ?thesis using a b is_escaped_quote_iff[of l i] by blast
qed


lemma is_space_simps:
  "is_space (CHR '' '')" "is_space tab" "\<not> is_space (CHR ''#'')" "\<not> is_space dquote" "\<not> is_space (CHR ''w'')"
  by (simp_all add: is_space_def)

theorem strip_comments_spec_witness:
  "unquoted_hash (''a = '' @ [dquote] @ ''#'' @ [dquote] @ '' #w'') 8 \<and>
   \<not> unquoted_hash (''a = '' @ [dquote] @ ''#'' @ [dquote] @ '' #w'') 5 \<and>
   strip_comments (''a'' @ [tab] @ ''= '' @ [dquote] @ ''#'' @ [dquote] @ '' #w '')
     = ''a = '' @ [dquote] @ ''#'' @ [dquote] \<and>
   strip_comments (''ab'' @ [tab]) = ''ab''"
proof -
  let ?X = "''a'' @ [tab] @ ''= '' @ [dquote] @ ''#'' @ [dquote] @ '' #w ''"
  let ?P = "''a = '' @ [dquote] @ ''#'' @ [dquote] @ '' #w''"
  have p: "?P = replace_char tab (CHR '' '') (rstrip ?X)"
    by (simp add: rstrip_def replace_char_def is_space_def)
  have h: "unquoted_hash ?P 8"
    by (simp add: unquoted_hash_def eval_nat_numeral is_escaped_quote_def)
  have n: "\<forall>j<8. \<not> unquoted_hash ?P j"
    by (simp add: unquoted_hash_def eval_nat_numeral is_escaped_quote_def All_less_Suc)
  have p2: "''ab'' = replace_char tab (CHR '' '') (rstrip (''ab'' @ [tab]))"
    by (simp add: rstrip_def replace_char_def is_space_def)
  have n2: "\<forall>j<length ''ab''. \<not> unquoted_hash ''ab'' j"
    by (simp add: unquoted_hash_def eval_nat_numeral All_less_Suc)
  have "strip_comments ?X = rstrip (take 8 ?P)"
    using strip_comments_spec [OF p, of "[]" 0 8] h n by blast
  moreover have "strip_comments (''ab'' @ [tab]) = ''ab''"
    using strip_comments_spec [OF p2, of "[]" 0 0] n2 by blast
  moreover have "\<not> unquoted_hash ?P 5" using n by simp
  ultimately show ?thesis using h
    by (simp add: rstrip_def is_space_def)
qed

section \<open>Properties of the record iterator\<close>

lemma split_on_not_Nil: "split_on sep s \<noteq> []"
  by (induction s) (auto split: list.splits)

lemma find_char_None: "find_char sep s = None \<longleftrightarrow> sep \<notin> set s"
  by (induction s) auto

lemma find_char_Some:
  "find_char sep s = Some i \<Longrightarrow> sep \<notin> set (take i s) \<and> s = take i s @ sep # drop (Suc i) s"
  by (induction s arbitrary: i) (auto split: if_splits)

lemma split_on_sep_free: "sep \<notin> set a \<Longrightarrow> split_on sep a = [a]"
  by (induction a) auto

lemma split_on_prefix:
  "sep \<notin> set a \<Longrightarrow> split_on sep (a @ s) = (a @ hd (split_on sep s)) # tl (split_on sep s)"
  by (induction a) (auto simp: split_on_not_Nil split: list.splits)

lemma split_on_at_sep: "sep \<notin> set a \<Longrightarrow> split_on sep (a @ sep # s) = a # split_on sep s"
  by (simp add: split_on_prefix)

lemma rows_inner_split:
  "rows_inner sep inc chunk = (ys, inc', chunk') \<Longrightarrow> sep \<notin> set (carry inc) \<Longrightarrow>
     sep \<notin> set (carry inc' @ chunk') \<and>
     split_on sep (carry inc @ chunk @ rest) = ys @ split_on sep (carry inc' @ chunk' @ rest)"
proof (induction sep inc chunk arbitrary: ys inc' chunk' rule: rows_inner.induct)
  case (1 sep inc chunk)
  show ?case
  proof (cases "find_char sep chunk")
    case None
    with "1.prems" show ?thesis by (simp add: find_char_None)
  next
    case (Some i)
    obtain zs i2 c2 where r: "rows_inner sep None (drop (i + 1) chunk) = (zs, i2, c2)"
      by (cases "rows_inner sep None (drop (i + 1) chunk)") auto
    from "1.prems"(1) Some r have eqs: "ys = (carry inc @ take i chunk) # zs" "inc' = i2" "chunk' = c2"
      by (auto split: option.splits)
    from "1.IH"[OF Some refl r]
    have ih: "sep \<notin> set (carry i2 @ c2)"
      "split_on sep (drop (i+1) chunk @ rest) = zs @ split_on sep (carry i2 @ c2 @ rest)"
      by auto
    from find_char_Some[OF Some] have fs: "sep \<notin> set (take i chunk)" "chunk = take i chunk @ sep # drop (Suc i) chunk" by auto
    have "carry inc @ chunk @ rest = (carry inc @ take i chunk) @ sep # (drop (Suc i) chunk @ rest)"
      using fs(2) by (metis append.assoc append_Cons)
    moreover have "split_on sep ((carry inc @ take i chunk) @ sep # (drop (Suc i) chunk @ rest))
        = (carry inc @ take i chunk) # split_on sep (drop (Suc i) chunk @ rest)"
      by (rule split_on_at_sep) (use fs(1) "1.prems"(2) in simp)
    ultimately have "split_on sep (carry inc @ chunk @ rest) = (carry inc @ take i chunk) # split_on sep (drop (Suc i) chunk @ rest)"
      by (simp only:)
    with ih eqs show ?thesis by simp
  qed
qed


lemma trim_last_append: "parts \<noteq> [] \<Longrightarrow> trim_last (ys @ parts) = ys @ trim_last parts"
  by (simp add: trim_last_def butlast_append)

lemma records_of_trim: "records_of sep s = trim_last (split_on sep s)"
  by (simp add: records_of_def trim_last_def Let_def)

lemma rows_outer_records:
  "0 < chunksize \<Longrightarrow> sep \<notin> set (carry inc) \<Longrightarrow>
     rows_outer chunksize sep inc f = records_of sep (carry inc @ f)"
proof (induction chunksize sep inc f rule: rows_outer.induct)
  case (1 chunksize sep inc f)
  show ?case
  proof (cases "take chunksize f = []")
    case True
    with "1.prems" have f: "f = []" by simp
    show ?thesis using "1.prems"(2) f
      by (subst rows_outer.simps)
         (cases inc; simp add: records_of_trim trim_last_def split_on_sep_free)
  next
    case False
    obtain ys i2 c2 where r: "rows_inner sep inc (take chunksize f) = (ys, i2, c2)"
      by (cases "rows_inner sep inc (take chunksize f)") auto
    from rows_inner_split[OF r "1.prems"(2), of "drop chunksize f"]
    have nosep: "sep \<notin> set (carry i2 @ c2)"
      and sp: "split_on sep (carry inc @ f) = ys @ split_on sep (carry i2 @ c2 @ drop chunksize f)"
      by auto
    let ?inc' = "case i2 of Some r \<Rightarrow> Some (r @ c2) | None \<Rightarrow> Some c2"
    have c: "carry ?inc' = carry i2 @ c2" by (cases i2) auto
    have ih: "rows_outer chunksize sep ?inc' (drop chunksize f) = records_of sep (carry ?inc' @ drop chunksize f)"
      using "1.IH"[OF refl False r[symmetric] refl "1.prems"(1)] nosep c by simp
    have "rows_outer chunksize sep inc f = ys @ rows_outer chunksize sep ?inc' (drop chunksize f)"
      using False r by (subst rows_outer.simps) simp
    also have "\<dots> = ys @ trim_last (split_on sep (carry i2 @ c2 @ drop chunksize f))"
      using ih c by (simp add: records_of_trim)
    also have "\<dots> = records_of sep (carry inc @ f)"
      using sp by (simp add: records_of_trim trim_last_append split_on_not_Nil)
    finally show ?thesis .
  qed
qed

lemma join_split_on: "join [sep] (split_on sep s) = s"
proof (induction s)
  case Nil show ?case by simp
next
  case (Cons c s)
  then show ?case
    by (cases "split_on sep s"; cases "tl (split_on sep s)") (auto simp: split_on_not_Nil)
qed

lemma split_on_single_empty: "split_on sep s = [[]] \<longleftrightarrow> s = []"
  by (cases s) (auto simp: split_on_not_Nil split: list.splits)

lemma last_split_on: "last (split_on sep s) = [] \<longleftrightarrow> s = [] \<or> last s = sep"
  by (induction s) (auto simp: split_on_not_Nil split_on_single_empty split: list.splits)

lemma join_snoc_empty: "xs \<noteq> [] \<Longrightarrow> join [sep] (xs @ [[]]) = join [sep] xs @ [sep]"
proof (induction xs)
  case Nil then show ?case by simp
next
  case (Cons x xs)
  then show ?case by (cases xs) auto
qed

lemma join_records_of:
  "join [sep] (records_of sep s) @ (if s \<noteq> [] \<and> last s = sep then [sep] else []) = s"
proof (cases "last (split_on sep s) = []")
  case False
  then show ?thesis
    using last_split_on[of sep s] by (simp add: records_of_def join_split_on)
next
  case True
  then have sp: "split_on sep s = butlast (split_on sep s) @ [[]]"
    using split_on_not_Nil[of sep s] by (metis append_butlast_last_id)
  show ?thesis
  proof (cases "s = []")
    case True then show ?thesis by (simp add: records_of_def)
  next
    case False
    have ne: "butlast (split_on sep s) \<noteq> []"
    proof
      assume "butlast (split_on sep s) = []"
      with sp have "split_on sep s = [[]]" by simp
      then have "join [sep] (split_on sep s) = []" by simp
      with False show False by (simp add: join_split_on)
    qed
    have "join [sep] (butlast (split_on sep s)) @ [sep] = s"
      using join_snoc_empty[OF ne, of sep] sp join_split_on[of sep s] by simp
    with True False last_split_on[of sep s] show ?thesis by (simp add: records_of_def)
  qed
qed

lemma split_on_sep_free_parts: "r \<in> set (split_on sep s) \<Longrightarrow> sep \<notin> set r"
  by (induction s arbitrary: r) (auto split: if_splits list.splits)


text \<open>
  Claim C8.  For every stream content and every positive chunk size, the record iterator
  yields the separator-delimited records of the content in order: the separator-free runs
  between separators (empty ones included), the final run only when it is not empty.  No
  yielded record contains the separator; joining the records with the separator, and
  appending one more separator iff the content ends with one, gives the content back; and
  the records do not depend on the chunk size.
\<close>

theorem rows_yields_records:
  "0 < chunksize \<Longrightarrow>
     rows stream chunksize sep = records_of sep stream \<and>
     (\<forall>r \<in> set (rows stream chunksize sep). sep \<notin> set r) \<and>
     join [sep] (rows stream chunksize sep)
       @ (if stream \<noteq> [] \<and> last stream = sep then [sep] else []) = stream \<and>
     (0 < chunksize' \<longrightarrow> rows stream chunksize' sep = rows stream chunksize sep)"
proof -
  assume pos: "0 < chunksize"
  have eq: "rows stream n sep = records_of sep stream" if "0 < n" for n
    using rows_outer_records[OF that, of sep None stream] by (simp add: rows_def)
  have free: "sep \<notin> set r" if "r \<in> set (records_of sep stream)" for r
  proof -
    from that have "r \<in> set (split_on sep stream)"
      by (auto simp: records_of_def Let_def split: if_splits dest: in_set_butlastD)
    then show ?thesis by (rule split_on_sep_free_parts)
  qed
  show ?thesis
    using eq[OF pos] eq[of chunksize'] free join_records_of[of sep stream] by auto
qed

theorem rows_yields_records_witness:
  "(0::nat) < 2 \<and>
   rows (''ab'' @ [newline, newline] @ ''cd'' @ [newline]) 2 newline = [''ab'', [], ''cd''] \<and>
   rows (''ab'' @ [newline, newline] @ ''cd'' @ [newline]) 5 newline = [''ab'', [], ''cd''] \<and>
   join [newline] [''ab'', [], ''cd''] @ [newline] = ''ab'' @ [newline, newline] @ ''cd'' @ [newline]"
  using rows_yields_records [of 2 "''ab'' @ [newline, newline] @ ''cd'' @ [newline]" newline 5]
  by (simp add: records_of_def)

section \<open>Properties of the clause splitter\<close>

lemma first_repeat_None:
  "first_repeat sn as = None \<longleftrightarrow> distinct as \<and> set as \<inter> sn = {}"
  by (induction as arbitrary: sn) auto

lemma first_repeat_Some:
  "first_repeat sn as = Some X \<Longrightarrow>
     \<exists>pre post. as = pre @ X # post \<and> distinct pre \<and> set pre \<inter> sn = {} \<and> X \<in> set pre \<union> sn"
proof (induction as arbitrary: sn)
  case Nil then show ?case by simp
next
  case (Cons a as)
  show ?case
  proof (cases "a \<in> sn")
    case True
    with Cons.prems have "X = a" by simp
    with True show ?thesis by (intro exI[of _ "[]"] exI[of _ as]) simp
  next
    case False
    with Cons.prems have "first_repeat (insert a sn) as = Some X" by simp
    from Cons.IH[OF this] obtain pre post where
      p: "as = pre @ X # post" "distinct pre" "set pre \<inter> insert a sn = {}" "X \<in> set pre \<union> insert a sn"
      by blast
    show ?thesis
      using p False by (intro exI[of _ "a # pre"] exI[of _ post]) auto
  qed
qed

lemma dict_set_keys: "fst ` set (dict_set d k v) = insert k (fst ` set d)"
proof (induction d)
  case Nil show ?case by simp
next
  case (Cons e d)
  obtain k' v' where e: "e = (k', v')" by (cases e)
  show ?case
  proof (cases "k' = k")
    case True with e show ?thesis by simp
  next
    case False
    with e Cons.IH show ?thesis by (simp add: insert_commute)
  qed
qed

lemma dict_set_distinct: "distinct (map fst d) \<Longrightarrow> distinct (map fst (dict_set d k v))"
proof (induction d)
  case Nil show ?case by simp
next
  case (Cons e d)
  obtain k' v' where e: "e = (k', v')" by (cases e)
  show ?case
  proof (cases "k' = k")
    case True with e Cons.prems show ?thesis by simp
  next
    case False
    with e Cons show ?thesis by (simp add: dict_set_keys)
  qed
qed

lemma dict_has_keys: "dict_has d k \<longleftrightarrow> k \<in> fst ` set d"
  by (simp add: dict_has_def map_of_eq_None_iff)

lemma store_prev_keys:
  "fst ` set (store_prev result prev tokens k i) = fst ` set result \<union> set_option prev"
  by (cases prev) (simp_all add: store_prev_def dict_set_keys)

lemma store_prev_distinct:
  "distinct (map fst result) \<Longrightarrow> distinct (map fst (store_prev result prev tokens k i))"
  by (cases prev) (auto simp: store_prev_def dict_set_distinct)

lemma separate_loop_spec:
  "distinct (map fst result) \<Longrightarrow>
   (case first_repeat (fst ` set result \<union> set_option prev) (map fst (recognized_from tokens i)) of
      Some X \<Rightarrow> separate_loop tokens result prev k i = Inl (more_than_one X)
    | None \<Rightarrow> (\<exists>m. separate_loop tokens result prev k i = Inr m \<and> distinct (map fst m) \<and>
          fst ` set m = fst ` set result \<union> set_option prev \<union> fst ` set (recognized_from tokens i)))"
proof (induction tokens result prev k i rule: separate_loop.induct)
  case (1 tokens result prev k i)
  show ?case
  proof (cases "i < length tokens")
    case False
    then show ?thesis
      using "1.prems"
      by (subst separate_loop.simps, subst (1 2) recognized_from.simps)
         (simp add: store_prev_keys store_prev_distinct)
  next
    case True
    obtain a i' where ca: "consume_action patterns tokens i = (a, i')"
      by (cases "consume_action patterns tokens i") auto
    show ?thesis
    proof (cases a)
      case None
      have l: "separate_loop tokens result prev k i = separate_loop tokens result prev k i'"
        using True ca None by (subst separate_loop.simps) simp
      have r: "recognized_from tokens i = recognized_from tokens i'"
        using True ca None by (subst recognized_from.simps) simp
      from "1.IH"(1)[OF True ca[symmetric] None "1.prems"] show ?thesis
        unfolding l r .
    next
      case (Some action)
      let ?res = "store_prev result prev tokens k i"
      have r: "recognized_from tokens i = (action, i) # recognized_from tokens i'"
        using True ca Some by (subst recognized_from.simps) simp
      have keys: "fst ` set ?res = fst ` set result \<union> set_option prev"
        by (rule store_prev_keys)
      have dist: "distinct (map fst ?res)" using "1.prems" by (rule store_prev_distinct)
      show ?thesis
      proof (cases "dict_has ?res action")
        case True': True
        have "separate_loop tokens result prev k i = Inl (more_than_one action)"
          using True ca Some True' by (subst separate_loop.simps) simp
        moreover have "action \<in> fst ` set result \<union> set_option prev"
          using True' keys by (simp add: dict_has_keys)
        ultimately show ?thesis using r by simp
      next
        case False
        have l: "separate_loop tokens result prev k i = separate_loop tokens ?res (Some action) i' i'"
          using True ca Some False by (subst separate_loop.simps) simp
        have notin: "action \<notin> fst ` set result \<union> set_option prev"
          using False keys by (simp add: dict_has_keys)
        have seen: "fst ` set ?res \<union> set_option (Some action)
                     = insert action (fst ` set result \<union> set_option prev)"
          using keys by auto
        from "1.IH"(2)[OF True ca[symmetric] Some refl False dist]
        show ?thesis unfolding l r seen using notin
          by (auto split: option.splits)
      qed
    qed
  qed
qed


text \<open>
  Claim C7.  If the scan of a token list recognizes some clause keyword phrase at two or
  more positions, \<open>separate_actions\<close> raises the parsing error
  \<open>More than one "X" statements found\<close> and returns no clause map, where \<open>X\<close> is
  the first phrase of the scan that was recognized before.  Every clause map it returns
  has one entry for each recognized phrase and no phrase twice.
\<close>

theorem separate_actions_duplicates:
  "(\<not> distinct (map fst (recognized_from tokens 0)) \<longrightarrow>
      (\<exists>X pre post.
         map fst (recognized_from tokens 0) = pre @ X # post \<and> distinct pre \<and> X \<in> set pre \<and>
         separate_actions tokens =
           Inl (RBParsingError
                 (''More than one '' @ [dquote] @ X @ [dquote] @ '' statements found'')))) \<and>
   (\<forall>m. separate_actions tokens = Inr m \<longrightarrow>
      distinct (map fst (recognized_from tokens 0)) \<and> distinct (map fst m) \<and>
      fst ` set m = fst ` set (recognized_from tokens 0))"
proof -
  let ?as = "map fst (recognized_from tokens 0)"
  have spec:
    "case first_repeat {} ?as of
       Some X \<Rightarrow> separate_actions tokens = Inl (more_than_one X)
     | None \<Rightarrow> (\<exists>m. separate_actions tokens = Inr m \<and> distinct (map fst m) \<and>
          fst ` set m = fst ` set (recognized_from tokens 0))"
    using separate_loop_spec[where result="[]" and prev=None and tokens=tokens and k=0 and i=0]
    unfolding separate_actions_def by (simp split: option.splits)
  have a: "\<exists>X pre post. ?as = pre @ X # post \<and> distinct pre \<and> X \<in> set pre \<and>
             separate_actions tokens = Inl (more_than_one X)"
    if "\<not> distinct ?as"
  proof -
    from that obtain X where X: "first_repeat {} ?as = Some X"
      using first_repeat_None[of "{}" ?as] by auto
    from first_repeat_Some[OF X] spec X show ?thesis by auto
  qed
  have b: "distinct ?as \<and> distinct (map fst m) \<and> fst ` set m = fst ` set (recognized_from tokens 0)"
    if "separate_actions tokens = Inr m" for m
  proof (cases "first_repeat {} ?as")
    case None
    with spec that first_repeat_None[of "{}" ?as] show ?thesis by auto
  next
    case (Some X)
    with spec that show ?thesis by simp
  qed
  show ?thesis using a b by (simp add: more_than_one_def)
qed

theorem separate_actions_duplicates_witness:
  "\<not> distinct (map fst (recognized_from
       [Tok ALPHANUM_RAW ''select'', Tok WHITESPACE '' '', Tok ALPHANUM_RAW ''a1'',
        Tok WHITESPACE '' '', Tok ALPHANUM_RAW ''Select'', Tok WHITESPACE '' '',
        Tok ALPHANUM_RAW ''a2''] 0)) \<and>
   separate_actions
       [Tok ALPHANUM_RAW ''select'', Tok WHITESPACE '' '', Tok ALPHANUM_RAW ''a1'',
        Tok WHITESPACE '' '', Tok ALPHANUM_RAW ''Select'', Tok WHITESPACE '' '',
        Tok ALPHANUM_RAW ''a2'']
     = Inl (RBParsingError
             (''More than one '' @ [dquote] @ ''SELECT'' @ [dquote] @ '' statements found'')) \<and>
   isl (separate_actions
       [Tok ALPHANUM_RAW ''select'', Tok WHITESPACE '' '', Tok ALPHANUM_RAW ''a1'',
        Tok WHITESPACE '' '', Tok ALPHANUM_RAW ''Select'', Tok WHITESPACE '' '',
        Tok ALPHANUM_RAW ''a2'']) \<and>
   separate_actions
       [Tok ALPHANUM_RAW ''select'', Tok WHITESPACE '' '', Tok ALPHANUM_RAW ''a1'',
        Tok WHITESPACE '' '', Tok ALPHANUM_RAW ''where'', Tok WHITESPACE '' '',
        Tok ALPHANUM_RAW ''a2'']
     = Inr [(''SELECT'', [Tok ALPHANUM_RAW ''a1'']), (''WHERE'', [Tok ALPHANUM_RAW ''a2''])] \<and>
   distinct (map fst (recognized_from
       [Tok ALPHANUM_RAW ''select'', Tok WHITESPACE '' '', Tok ALPHANUM_RAW ''a1'',
        Tok WHITESPACE '' '', Tok ALPHANUM_RAW ''where'', Tok WHITESPACE '' '',
        Tok ALPHANUM_RAW ''a2''] 0))"
proof -
  let ?T1 = "[Tok ALPHANUM_RAW ''select'', Tok WHITESPACE '' '', Tok ALPHANUM_RAW ''a1'',
        Tok WHITESPACE '' '', Tok ALPHANUM_RAW ''Select'', Tok WHITESPACE '' '',
        Tok ALPHANUM_RAW ''a2'']"
  let ?T2 = "[Tok ALPHANUM_RAW ''select'', Tok WHITESPACE '' '', Tok ALPHANUM_RAW ''a1'',
        Tok WHITESPACE '' '', Tok ALPHANUM_RAW ''where'', Tok WHITESPACE '' '',
        Tok ALPHANUM_RAW ''a2'']"
  have r1: "map fst (recognized_from ?T1 0) = [''SELECT'', ''SELECT'']" by code_simp
  have e1: "separate_actions ?T1 = Inl (RBParsingError
             (''More than one '' @ [dquote] @ ''SELECT'' @ [dquote] @ '' statements found''))"
    by code_simp
  have e2: "separate_actions ?T2
     = Inr [(''SELECT'', [Tok ALPHANUM_RAW ''a1'']), (''WHERE'', [Tok ALPHANUM_RAW ''a2''])]"
    by code_simp
  have d1: "\<not> distinct (map fst (recognized_from ?T1 0))" unfolding r1 by simp
  have "isl (separate_actions ?T1)"
    using separate_actions_duplicates [of ?T1] d1 by auto
  moreover have "distinct (map fst (recognized_from ?T2 0))"
    using separate_actions_duplicates [of ?T2] e2 by blast
  ultimately show ?thesis using d1 e1 e2 by blast
qed

lemma upper_char_space: "upper_char c = CHR '' '' \<longleftrightarrow> c = CHR '' ''"
  by (simp add: upper_char_def)

lemma upper_space: "upper s = '' '' \<longleftrightarrow> s = '' ''"
  by (cases s) (auto simp: upper_def upper_char_space)

lemma consume_patterns_find:
  "consume_patterns ps tokens idx =
     (case find (\<lambda>p. pmatch p tokens idx) ps of
        None \<Rightarrow> (None, idx + 1)
      | Some p \<Rightarrow> (Some (p_text p), idx + p_size p))"
  by (induction ps) (auto simp: pmatch_def Let_def)

lemma slice_step: "idx < length xs \<Longrightarrow> slice xs idx (Suc n) = (if idx < Suc n then xs ! idx # slice xs (Suc idx) (Suc n) else [])"
  by (auto simp: slice_def Cons_nth_drop_Suc[symmetric] Suc_diff_le)

lemma slice_empty: "slice xs idx idx = []"
  by (simp add: slice_def)

lemma slice1: "idx < length xs \<Longrightarrow> slice xs idx (Suc idx) = [xs ! idx]"
  by (simp add: slice_step slice_empty)

lemma slice3: "Suc (Suc idx) < length xs \<Longrightarrow>
    slice xs idx (Suc (Suc (Suc idx))) = [xs ! idx, xs ! Suc idx, xs ! Suc (Suc idx)]"
  by (simp add: slice_step slice_empty)

lemma slice5: "Suc (Suc (Suc (Suc idx))) < length xs \<Longrightarrow>
    slice xs idx (Suc (Suc (Suc (Suc (Suc idx))))) =
      [xs ! idx, xs ! Suc idx, xs ! Suc (Suc idx), xs ! Suc (Suc (Suc idx)),
       xs ! Suc (Suc (Suc (Suc idx)))]"
  by (simp add: slice_step slice_empty)

lemma pmatch_1:
  "split_on (CHR '' '') phrase = [w] \<Longrightarrow>
   pmatch (mk_Pattern phrase) tokens idx \<longleftrightarrow> idx + 1 < length tokens \<and> phrase_at phrase tokens idx"
  by (auto simp: pmatch_def mk_Pattern_def phrase_at_def slice1 Tok_def)

lemma pmatch_2:
  "split_on (CHR '' '') phrase = [w1, w2] \<Longrightarrow>
   pmatch (mk_Pattern phrase) tokens idx \<longleftrightarrow> idx + 3 < length tokens \<and> phrase_at phrase tokens idx"
  by (auto simp: pmatch_def mk_Pattern_def phrase_at_def slice3 Tok_def upper_space)

lemma pmatch_3:
  "split_on (CHR '' '') phrase = [w1, w2, w3] \<Longrightarrow>
   pmatch (mk_Pattern phrase) tokens idx \<longleftrightarrow> idx + 5 < length tokens \<and> phrase_at phrase tokens idx"
  by (auto simp: pmatch_def mk_Pattern_def phrase_at_def slice5 Tok_def upper_space)

lemma pmatch_patterns:
  "pmatch (mk_Pattern ''STRICT LEFT JOIN'') tokens idx \<longleftrightarrow> idx + 5 < length tokens \<and> phrase_at ''STRICT LEFT JOIN'' tokens idx"
  "pmatch (mk_Pattern ''SELECT DISTINCT'') tokens idx \<longleftrightarrow> idx + 3 < length tokens \<and> phrase_at ''SELECT DISTINCT'' tokens idx"
  "pmatch (mk_Pattern ''INNER JOIN'') tokens idx \<longleftrightarrow> idx + 3 < length tokens \<and> phrase_at ''INNER JOIN'' tokens idx"
  "pmatch (mk_Pattern ''LEFT JOIN'') tokens idx \<longleftrightarrow> idx + 3 < length tokens \<and> phrase_at ''LEFT JOIN'' tokens idx"
  "pmatch (mk_Pattern ''ORDER BY'') tokens idx \<longleftrightarrow> idx + 3 < length tokens \<and> phrase_at ''ORDER BY'' tokens idx"
  "pmatch (mk_Pattern ''SELECT'') tokens idx \<longleftrightarrow> idx + 1 < length tokens \<and> phrase_at ''SELECT'' tokens idx"
  "pmatch (mk_Pattern ''WHERE'') tokens idx \<longleftrightarrow> idx + 1 < length tokens \<and> phrase_at ''WHERE'' tokens idx"
  by (rule pmatch_3 pmatch_2 pmatch_1, simp)+

lemma phrase_first_words:
  "phrase_at ''STRICT LEFT JOIN'' tokens idx \<Longrightarrow> upper (content (tokens ! idx)) = ''STRICT''"
  "phrase_at ''SELECT DISTINCT'' tokens idx \<Longrightarrow> upper (content (tokens ! idx)) = ''SELECT''"
  "phrase_at ''INNER JOIN'' tokens idx \<Longrightarrow> upper (content (tokens ! idx)) = ''INNER''"
  "phrase_at ''LEFT JOIN'' tokens idx \<Longrightarrow> upper (content (tokens ! idx)) = ''LEFT''"
  "phrase_at ''ORDER BY'' tokens idx \<Longrightarrow> upper (content (tokens ! idx)) = ''ORDER''"
  "phrase_at ''SELECT'' tokens idx \<Longrightarrow> upper (content (tokens ! idx)) = ''SELECT''"
  "phrase_at ''WHERE'' tokens idx \<Longrightarrow> upper (content (tokens ! idx)) = ''WHERE''"
  by (simp_all add: phrase_at_def)

lemma mk_Pattern_sel:
  "p_text (mk_Pattern phrase) = phrase" "p_size (mk_Pattern phrase) = phrase_size phrase"
proof -
  have "length (pattern_tokens ws) = 2 * length ws - 1" for ws
    by (induction ws rule: pattern_tokens.induct) auto
  then show "p_size (mk_Pattern phrase) = phrase_size phrase"
    by (simp add: mk_Pattern_def phrase_size_def Let_def)
qed (simp add: mk_Pattern_def Let_def)

lemma phrase_sizes:
  "phrase_size ''STRICT LEFT JOIN'' = 5" "phrase_size ''SELECT DISTINCT'' = 3"
  "phrase_size ''INNER JOIN'' = 3" "phrase_size ''LEFT JOIN'' = 3" "phrase_size ''ORDER BY'' = 3"
  "phrase_size ''SELECT'' = 1" "phrase_size ''WHERE'' = 1"
  by (simp_all add: phrase_size_def)

lemma pmatch_fits:
  "phrase \<in> set pattern_texts \<Longrightarrow> pmatch (mk_Pattern phrase) tokens idx = fits phrase tokens idx"
  unfolding fits_def pattern_texts_def
  by (auto simp: pmatch_patterns phrase_sizes)

lemma consume_patterns_chain:
  "consume_patterns patterns tokens idx =
    (if fits ''STRICT LEFT JOIN'' tokens idx then (Some ''STRICT LEFT JOIN'', idx + phrase_size ''STRICT LEFT JOIN'')
     else if fits ''SELECT DISTINCT'' tokens idx then (Some ''SELECT DISTINCT'', idx + phrase_size ''SELECT DISTINCT'')
     else if fits ''INNER JOIN'' tokens idx then (Some ''INNER JOIN'', idx + phrase_size ''INNER JOIN'')
     else if fits ''LEFT JOIN'' tokens idx then (Some ''LEFT JOIN'', idx + phrase_size ''LEFT JOIN'')
     else if fits ''ORDER BY'' tokens idx then (Some ''ORDER BY'', idx + phrase_size ''ORDER BY'')
     else if fits ''SELECT'' tokens idx then (Some ''SELECT'', idx + phrase_size ''SELECT'')
     else if fits ''WHERE'' tokens idx then (Some ''WHERE'', idx + phrase_size ''WHERE'')
     else (None, idx + 1))"
proof -
  have m: "pmatch (mk_Pattern ''STRICT LEFT JOIN'') tokens idx = fits ''STRICT LEFT JOIN'' tokens idx"
    "pmatch (mk_Pattern ''SELECT DISTINCT'') tokens idx = fits ''SELECT DISTINCT'' tokens idx"
    "pmatch (mk_Pattern ''INNER JOIN'') tokens idx = fits ''INNER JOIN'' tokens idx"
    "pmatch (mk_Pattern ''LEFT JOIN'') tokens idx = fits ''LEFT JOIN'' tokens idx"
    "pmatch (mk_Pattern ''ORDER BY'') tokens idx = fits ''ORDER BY'' tokens idx"
    "pmatch (mk_Pattern ''SELECT'') tokens idx = fits ''SELECT'' tokens idx"
    "pmatch (mk_Pattern ''WHERE'') tokens idx = fits ''WHERE'' tokens idx"
    by (rule pmatch_fits, simp add: pattern_texts_def)+
  show ?thesis
    unfolding consume_patterns_find patterns_eq
    by (simp only: find.simps m mk_Pattern_sel option.case if_distrib[of "case_option _ _"] cong: if_cong)
qed

lemma phrase_first:
  "phrase_at phrase tokens idx \<Longrightarrow> upper (content (tokens ! idx)) = hd (split_on (CHR '' '') phrase)"
  by (cases "split_on (CHR '' '') phrase" rule: pattern_tokens.cases)
     (auto simp: phrase_at_def split_on_not_Nil)

lemma fits_first_word:
  "fits p tokens idx \<Longrightarrow> fits q tokens idx \<Longrightarrow>
     hd (split_on (CHR '' '') p) = hd (split_on (CHR '' '') q)"
  using phrase_first[of p tokens idx] phrase_first[of q tokens idx] by (simp add: fits_def)

lemma fits_exclusive:
  "fits ''STRICT LEFT JOIN'' tokens idx \<Longrightarrow> \<not> fits ''SELECT DISTINCT'' tokens idx"
  "fits ''STRICT LEFT JOIN'' tokens idx \<Longrightarrow> \<not> fits ''INNER JOIN'' tokens idx"
  "fits ''STRICT LEFT JOIN'' tokens idx \<Longrightarrow> \<not> fits ''LEFT JOIN'' tokens idx"
  "fits ''STRICT LEFT JOIN'' tokens idx \<Longrightarrow> \<not> fits ''ORDER BY'' tokens idx"
  "fits ''STRICT LEFT JOIN'' tokens idx \<Longrightarrow> \<not> fits ''SELECT'' tokens idx"
  "fits ''STRICT LEFT JOIN'' tokens idx \<Longrightarrow> \<not> fits ''WHERE'' tokens idx"
  "fits ''SELECT DISTINCT'' tokens idx \<Longrightarrow> \<not> fits ''INNER JOIN'' tokens idx"
  "fits ''SELECT DISTINCT'' tokens idx \<Longrightarrow> \<not> fits ''LEFT JOIN'' tokens idx"
  "fits ''SELECT DISTINCT'' tokens idx \<Longrightarrow> \<not> fits ''ORDER BY'' tokens idx"
  "fits ''SELECT DISTINCT'' tokens idx \<Longrightarrow> \<not> fits ''WHERE'' tokens idx"
  "fits ''INNER JOIN'' tokens idx \<Longrightarrow> \<not> fits ''LEFT JOIN'' tokens idx"
  "fits ''INNER JOIN'' tokens idx \<Longrightarrow> \<not> fits ''ORDER BY'' tokens idx"
  "fits ''INNER JOIN'' tokens idx \<Longrightarrow> \<not> fits ''SELECT'' tokens idx"
  "fits ''INNER JOIN'' tokens idx \<Longrightarrow> \<not> fits ''WHERE'' tokens idx"
  "fits ''LEFT JOIN'' tokens idx \<Longrightarrow> \<not> fits ''ORDER BY'' tokens idx"
  "fits ''LEFT JOIN'' tokens idx \<Longrightarrow> \<not> fits ''SELECT'' tokens idx"
  "fits ''LEFT JOIN'' tokens idx \<Longrightarrow> \<not> fits ''WHERE'' tokens idx"
  "fits ''ORDER BY'' tokens idx \<Longrightarrow> \<not> fits ''SELECT'' tokens idx"
  "fits ''ORDER BY'' tokens idx \<Longrightarrow> \<not> fits ''WHERE'' tokens idx"
  "fits ''SELECT'' tokens idx \<Longrightarrow> \<not> fits ''WHERE'' tokens idx"
  by (auto dest: fits_first_word)

lemma phrase_at_alphanum: "phrase_at phrase tokens idx \<Longrightarrow> ttype (tokens ! idx) \<noteq> STRING_LITERAL"
  by (cases "split_on (CHR '' '') phrase" rule: pattern_tokens.cases)
     (auto simp: phrase_at_def split_on_not_Nil)



lemma recognizes_each:
  "recognizes ''STRICT LEFT JOIN'' tokens idx"
  "recognizes ''SELECT DISTINCT'' tokens idx"
  "recognizes ''INNER JOIN'' tokens idx"
  "recognizes ''LEFT JOIN'' tokens idx"
  "recognizes ''ORDER BY'' tokens idx"
  "recognizes ''SELECT'' tokens idx"
  "recognizes ''WHERE'' tokens idx"
  unfolding recognizes_def consume_patterns_chain using fits_exclusive[of tokens idx]
  by (simp_all split: if_splits)

lemma recognizes_all: "\<forall>phrase \<in> set pattern_texts. recognizes phrase tokens idx"
  unfolding pattern_texts_def by (simp only: list.set ball_simps recognizes_each simp_thms)

lemma consume_patterns_fits:
  assumes "phrase \<in> set pattern_texts"
  shows "consume_patterns patterns tokens idx = (Some phrase, idx + phrase_size phrase) \<longleftrightarrow>
           fits phrase tokens idx \<and> \<not> (phrase = ''SELECT'' \<and> fits ''SELECT DISTINCT'' tokens idx)"
  using recognizes_all[of tokens idx] assms unfolding recognizes_def by (rule bspec)

text \<open>
  Recognition strictly inside the token list.  For each of the seven clause phrases, at a
  position from which the phrase's tokens end strictly before the end of the token list,
  \<open>consume_action\<close> recognizes the phrase iff the tokens there carry the phrase's words
  (upper-cased contents, \<open>ALPHANUM_RAW\<close>) separated by \<open>WHITESPACE\<close> tokens, except
  that \<open>SELECT\<close> gives way to a \<open>SELECT DISTINCT\<close> that also ends before the end.
\<close>

theorem consume_action_recognizes:
  assumes "phrase \<in> set pattern_texts" and "idx + phrase_size phrase < length tokens"
  shows "consume_action patterns tokens idx = (Some phrase, idx + phrase_size phrase) \<longleftrightarrow>
           phrase_at phrase tokens idx \<and>
           \<not> (phrase = ''SELECT'' \<and> idx + phrase_size ''SELECT DISTINCT'' < length tokens \<and>
              phrase_at ''SELECT DISTINCT'' tokens idx)"
proof (cases "ttype (tokens ! idx) = STRING_LITERAL")
  case True
  then show ?thesis
    using phrase_at_alphanum[of phrase tokens idx] by (auto simp: consume_action_def)
next
  case False
  then have ca: "consume_action patterns tokens idx = consume_patterns patterns tokens idx"
    by (simp add: consume_action_def)
  show ?thesis
    unfolding ca consume_patterns_fits[OF assms(1)] using assms(2) by (simp add: fits_def)
qed


theorem consume_action_recognizes_witness:
  "''SELECT DISTINCT'' \<in> set pattern_texts \<and>
   0 + phrase_size ''SELECT DISTINCT'' < length
     [Tok ALPHANUM_RAW ''select'', Tok WHITESPACE '' '', Tok ALPHANUM_RAW ''Distinct'',
      Tok WHITESPACE '' '', Tok ALPHANUM_RAW ''a1''] \<and>
   consume_action patterns
     [Tok ALPHANUM_RAW ''select'', Tok WHITESPACE '' '', Tok ALPHANUM_RAW ''Distinct'',
      Tok WHITESPACE '' '', Tok ALPHANUM_RAW ''a1''] 0 = (Some ''SELECT DISTINCT'', 3)"
proof -
  let ?T = "[Tok ALPHANUM_RAW ''select'', Tok WHITESPACE '' '', Tok ALPHANUM_RAW ''Distinct'',
      Tok WHITESPACE '' '', Tok ALPHANUM_RAW ''a1'']"
  have a: "''SELECT DISTINCT'' \<in> set pattern_texts" by (simp add: pattern_texts_def)
  have s: "phrase_size ''SELECT DISTINCT'' = 3" by (simp add: phrase_size_def)
  have b: "0 + phrase_size ''SELECT DISTINCT'' < length ?T" unfolding s by simp
  have p: "phrase_at ''SELECT DISTINCT'' ?T 0"
    by (simp add: phrase_at_def Tok_def upper_def upper_char_def)
  from consume_action_recognizes [OF a b] p
  have "consume_action patterns ?T 0 = (Some ''SELECT DISTINCT'', 0 + phrase_size ''SELECT DISTINCT'')"
    by simp
  with a b show ?thesis unfolding s by simp
qed

text \<open>
  Claim C2 at the end of the token list.  For the query \<open>select distinct\<close> the three
  tokens carry the words of \<open>SELECT DISTINCT\<close> and none is a string literal, yet
  \<open>consume_action\<close> skips that phrase, because it ends exactly at the end of the list,
  and recognizes \<open>SELECT\<close>; for the query \<open>select\<close> it recognizes nothing and the
  clause map is empty.
\<close>

theorem consume_action_end_of_list:
  "phrase_at ''SELECT DISTINCT''
     [Tok ALPHANUM_RAW ''select'', Tok WHITESPACE '' '', Tok ALPHANUM_RAW ''distinct''] 0 \<and>
   consume_action patterns
     [Tok ALPHANUM_RAW ''select'', Tok WHITESPACE '' '', Tok ALPHANUM_RAW ''distinct''] 0
     = (Some ''SELECT'', 1) \<and>
   separate_actions
     [Tok ALPHANUM_RAW ''select'', Tok WHITESPACE '' '', Tok ALPHANUM_RAW ''distinct'']
     = Inr [(''SELECT'', [Tok ALPHANUM_RAW ''distinct''])] \<and>
   phrase_at ''SELECT'' [Tok ALPHANUM_RAW ''select''] 0 \<and>
   consume_action patterns [Tok ALPHANUM_RAW ''select''] 0 = (None, 1) \<and>
   separate_actions [Tok ALPHANUM_RAW ''select''] = Inr []"
  by code_simp
section \<open>Properties of the column rewriter\<close>


lemma replace_column_vars_loop_spec:
  "length (replace_column_vars_loop tokens i) = length tokens \<and>
   (\<forall>j < length tokens.
      replace_column_vars_loop tokens i ! j =
        (if i \<le> j \<and> ttype (tokens ! j) \<noteq> STRING_LITERAL then
           (case replace_rbql_var (content (tokens ! j)) of
              Some v \<Rightarrow> (tokens ! j)\<lparr>content := v\<rparr>
            | None \<Rightarrow> tokens ! j)
         else tokens ! j))"
proof (induction tokens i rule: replace_column_vars_loop.induct)
  case (1 tokens i)
  show ?case
  proof (cases "i < length tokens")
    case False
    then show ?thesis by (subst (1 2) replace_column_vars_loop.simps) auto
  next
    case True
    show ?thesis
    proof (cases "ttype (tokens ! i) = STRING_LITERAL")
      case lit: True
      have e: "replace_column_vars_loop tokens i = replace_column_vars_loop tokens (i + 1)"
        using True lit by (subst replace_column_vars_loop.simps) simp
      from "1.IH"(1)[OF True lit] show ?thesis unfolding e
        using lit by (auto simp: Suc_le_eq le_less)
    next
      case nolit: False
      show ?thesis
      proof (cases "replace_rbql_var (content (tokens ! i))")
        case None
        have e: "replace_column_vars_loop tokens i = replace_column_vars_loop tokens (i + 1)"
          using True nolit None by (subst replace_column_vars_loop.simps) simp
        from "1.IH"(2)[OF True nolit None] show ?thesis unfolding e
          using None by (auto simp: Suc_le_eq le_less)
      next
        case (Some v)
        let ?ts = "tokens[i := (tokens ! i)\<lparr>content := v\<rparr>]"
        have e: "replace_column_vars_loop tokens i = replace_column_vars_loop ?ts (i + 1)"
          using True nolit Some by (subst replace_column_vars_loop.simps) simp
        from "1.IH"(3)[OF True nolit Some] show ?thesis unfolding e
          using Some True nolit by (auto simp: Suc_le_eq le_less nth_list_update split: option.splits)
      qed
    qed
  qed
qed


lemma no_adjacent_spaces_nth:
  "no_adjacent_spaces tokens \<Longrightarrow> Suc j < length tokens \<Longrightarrow>
     \<not> (content (tokens ! j) = '' '' \<and> content (tokens ! Suc j) = '' '')"
proof (induction tokens arbitrary: j rule: no_adjacent_spaces.induct)
  case (3 t u ts)
  then show ?case by (cases j) auto
qed simp_all

lemma star_inv_content:
  assumes "star_inv cur orig i" "j < length orig"
  shows "(content (cur ! j) = '' '') = (content (orig ! j) = '' '')"
    and "endswith_comma (content (cur ! j)) = endswith_comma (content (orig ! j))"
    and "i \<le> j \<Longrightarrow> cur ! j = orig ! j"
    and "ttype (cur ! j) = ttype (orig ! j)"
  using assms by (auto simp: star_inv_def endswith_comma_def)

lemma star_left_cases:
  "star_left tokens i =
     (if i = 0 then Replace
      else if content (tokens ! (i - 1)) \<noteq> '' '' then
        (if endswith_comma (content (tokens ! (i - 1))) then Replace else Keep)
      else if i = 1 then Replace
      else if content (tokens ! (i - 2)) = '' '' then Fail
      else if endswith_comma (content (tokens ! (i - 2))) then Replace else Keep)"
proof -
  have a: "nat (int i - 1) = i - 1" by simp
  have b: "nat (int i - 1 - 1) = i - 2" by simp
  have c: "(0 \<le> int i - 1) = (i \<noteq> 0)" by auto
  have d: "(0 \<le> int i - 1 - 1) = (i \<noteq> 0 \<and> i \<noteq> 1)" by auto
  show ?thesis
    unfolding star_left_def Let_def
    by (simp only: a b c d if_distrib[of "\<lambda>j. 0 \<le> j"] if_distrib[of "\<lambda>j. tokens ! nat j"] cong: if_cong)
       (auto simp: a b c d)
qed

lemma star_right_cases:
  "star_right tokens i =
     (if i + 1 \<ge> length tokens then Replace
      else if content (tokens ! (i + 1)) \<noteq> '' '' then
        (if startswith_comma (content (tokens ! (i + 1))) then Replace else Keep)
      else if i + 2 \<ge> length tokens then Replace
      else if content (tokens ! (i + 2)) = '' '' then Fail
      else if startswith_comma (content (tokens ! (i + 2))) then Replace else Keep)"
  unfolding star_right_def Let_def by auto

lemma endswith_comma_space: "\<not> endswith_comma '' ''" "\<not> startswith_comma '' ''"
  by (simp_all add: endswith_comma_def startswith_comma_def)

lemma star_left_Replace:
  "star_left tokens i = Replace \<longleftrightarrow>
     (case left_neighbour tokens i of None \<Rightarrow> True | Some t \<Rightarrow> endswith_comma (content t))"
proof (cases "i = 0 \<or> i = 1")
  case True
  then show ?thesis
    unfolding star_left_cases left_neighbour_def by (auto simp: endswith_comma_space)
next
  case False
  then have i: "i \<noteq> 0" "i \<noteq> 1" by auto
  show ?thesis
    unfolding star_left_cases left_neighbour_def using i
    by (cases "content (tokens ! (i - 1)) = '' ''"; cases "content (tokens ! (i - 2)) = '' ''")
       (simp_all add: endswith_comma_space)
qed

lemma star_right_Replace:
  "star_right tokens i = Replace \<longleftrightarrow>
     (case right_neighbour tokens i of None \<Rightarrow> True | Some t \<Rightarrow> startswith_comma (content t))"
  unfolding star_right_cases right_neighbour_def
  by (cases "content (tokens ! (i + 1)) = '' ''"; cases "content (tokens ! (i + 2)) = '' ''")
     (simp_all add: endswith_comma_space)

lemma star_body_Replace:
  "star_body tokens i = Replace \<longleftrightarrow>
     ttype (tokens ! i) \<noteq> STRING_LITERAL \<and> content (tokens ! i) = ''*'' \<and> isolated tokens i"
proof -
  have "star_body tokens i = Replace \<longleftrightarrow>
     ttype (tokens ! i) \<noteq> STRING_LITERAL \<and> content (tokens ! i) = ''*'' \<and>
     star_left tokens i = Replace \<and> star_right tokens i = Replace"
    unfolding star_body_def by (cases "star_left tokens i") auto
  then show ?thesis
    unfolding isolated_def star_left_Replace star_right_Replace .
qed

lemma star_body_inv:
  assumes "star_inv cur orig i" "i < length orig"
  shows "star_body cur i = star_body orig i"
proof -
  have len: "length cur = length orig" using assms(1) by (simp add: star_inv_def)
  have l: "star_left cur i = star_left orig i"
    unfolding star_left_cases
    using star_inv_content(1,2)[OF assms(1), of "i - 1"] star_inv_content(1,2)[OF assms(1), of "i - 2"]
      assms(2)
    by auto
  have r: "star_right cur i = star_right orig i"
    unfolding star_right_cases len
    using star_inv_content(3)[OF assms(1), of "i + 1"] star_inv_content(3)[OF assms(1), of "i + 2"]
    by auto
  show ?thesis
    unfolding star_body_def l r using star_inv_content(3)[OF assms, of] by simp
qed


lemma star_inv_keep: "star_inv cur orig i \<Longrightarrow> star_inv cur orig (Suc i)"
  by (auto simp: star_inv_def)

lemma star_inv_replace:
  assumes "star_inv cur orig i" "i < length orig" "star_body orig i = Replace"
  shows "star_inv (cur[i := (cur ! i)\<lparr>content := ''star_line''\<rparr>]) orig (Suc i)"
proof -
  from assms(3) have r: "ttype (orig ! i) \<noteq> STRING_LITERAL" "content (orig ! i) = ''*''"
    "isolated orig i"
    by (simp_all add: star_body_Replace)
  have ci: "cur ! i = orig ! i" using star_inv_content(3)[OF assms(1,2)] by simp
  show ?thesis
    using assms(1,2) r ci unfolding star_inv_def
    by (auto simp: nth_list_update less_Suc_eq)
qed

lemma replace_star_vars_loop_inv:
  "star_inv cur orig i \<Longrightarrow> replace_star_vars_loop cur i = Inr res \<Longrightarrow>
     star_inv res orig (length orig)"
proof (induction cur i rule: replace_star_vars_loop.induct)
  case (1 cur i)
  have len: "length cur = length orig" using "1.prems"(1) by (simp add: star_inv_def)
  show ?case
  proof (cases "i < length cur")
    case False
    with "1.prems"(2) have "res = cur" by (subst (asm) replace_star_vars_loop.simps) simp
    with "1.prems"(1) False len show ?thesis by (auto simp: star_inv_def)
  next
    case True
    then have io: "i < length orig" using len by simp
    have sb: "star_body cur i = star_body orig i" by (rule star_body_inv[OF "1.prems"(1) io])
    show ?thesis
    proof (cases "star_body cur i")
      case Keep
      with True "1.prems"(2) have "replace_star_vars_loop cur (i + 1) = Inr res"
        by (subst (asm) replace_star_vars_loop.simps) simp
      with "1.IH"(1)[OF True Keep] star_inv_keep[OF "1.prems"(1)] show ?thesis by simp
    next
      case Fail
      with True "1.prems"(2) show ?thesis
        by (subst (asm) replace_star_vars_loop.simps) simp
    next
      case Replace
      with True "1.prems"(2)
      have "replace_star_vars_loop (cur[i := (cur ! i)\<lparr>content := ''star_line''\<rparr>]) (i + 1) = Inr res"
        by (subst (asm) replace_star_vars_loop.simps) simp
      with "1.IH"(2)[OF True Replace] star_inv_replace[OF "1.prems"(1) io] Replace sb
      show ?thesis by simp
    qed
  qed
qed

lemma star_body_no_Fail:
  assumes "no_adjacent_spaces tokens" "i < length tokens"
  shows "star_body tokens i \<noteq> Fail"
proof -
  have l: "star_left tokens i \<noteq> Fail"
  proof (cases "i = 0 \<or> i = 1")
    case True
    then show ?thesis unfolding star_left_cases by auto
  next
    case False
    then have "Suc (i - 2) = i - 1" "Suc (i - 2) < length tokens" using assms(2) by auto
    with no_adjacent_spaces_nth[OF assms(1), of "i - 2"]
    have "\<not> (content (tokens ! (i - 2)) = '' '' \<and> content (tokens ! (i - 1)) = '' '')" by simp
    then show ?thesis unfolding star_left_cases by auto
  qed
  have r: "star_right tokens i \<noteq> Fail"
    unfolding star_right_cases using no_adjacent_spaces_nth[OF assms(1), of "i + 1"]
    by auto
  show ?thesis unfolding star_body_def using l r by (auto split: star_step.splits)
qed

lemma replace_star_vars_loop_total:
  "star_inv cur orig i \<Longrightarrow> no_adjacent_spaces orig \<Longrightarrow>
     \<exists>res. replace_star_vars_loop cur i = Inr res"
proof (induction cur i rule: replace_star_vars_loop.induct)
  case (1 cur i)
  have len: "length cur = length orig" using "1.prems"(1) by (simp add: star_inv_def)
  show ?case
  proof (cases "i < length cur")
    case False
    then show ?thesis by (subst replace_star_vars_loop.simps) simp
  next
    case True
    then have io: "i < length orig" using len by simp
    have sb: "star_body cur i = star_body orig i" by (rule star_body_inv[OF "1.prems"(1) io])
    show ?thesis
    proof (cases "star_body cur i")
      case Keep
      from "1.IH"(1)[OF True Keep star_inv_keep[OF "1.prems"(1), simplified Suc_eq_plus1] "1.prems"(2)]
      show ?thesis using True Keep by (subst replace_star_vars_loop.simps) simp
    next
      case Fail
      with sb star_body_no_Fail[OF "1.prems"(2) io] show ?thesis by simp
    next
      case Replace
      from sb Replace have "star_body orig i = Replace" by simp
      from "1.IH"(2)[OF True Replace star_inv_replace[OF "1.prems"(1) io this, simplified Suc_eq_plus1] "1.prems"(2)]
      show ?thesis using True Replace by (subst replace_star_vars_loop.simps) simp
    qed
  qed
qed


text \<open>
  Claim C9.  The column rewriter keeps the length of the token list and every token type,
  leaves every \<open>STRING_LITERAL\<close> token as it is, and changes a token only if its whole
  content matches the A-column or the B-column pattern.  The star rewriter, whenever it
  returns, does the same, and changes a token only if it is a \<open>*\<close> outside a string
  literal that is isolated, setting its content to \<open>star_line\<close>; it returns on every
  list without two neighbouring \<open>' '\<close> tokens.
\<close>

theorem rewriters_keep_string_literals:
  "length (replace_column_vars tokens) = length tokens \<and>
   (\<forall>j < length tokens.
      ttype (replace_column_vars tokens ! j) = ttype (tokens ! j) \<and>
      (ttype (tokens ! j) = STRING_LITERAL \<longrightarrow> replace_column_vars tokens ! j = tokens ! j) \<and>
      (replace_column_vars tokens ! j \<noteq> tokens ! j \<longrightarrow>
         ttype (tokens ! j) \<noteq> STRING_LITERAL \<and>
         (column_match (CHR ''a'') (content (tokens ! j)) \<noteq> None \<or>
          column_match (CHR ''b'') (content (tokens ! j)) \<noteq> None))) \<and>
   (\<forall>res. replace_star_vars tokens = Inr res \<longrightarrow>
      length res = length tokens \<and>
      (\<forall>j < length tokens.
         ttype (res ! j) = ttype (tokens ! j) \<and>
         (ttype (tokens ! j) = STRING_LITERAL \<longrightarrow> res ! j = tokens ! j) \<and>
         (res ! j \<noteq> tokens ! j \<longrightarrow>
            ttype (tokens ! j) \<noteq> STRING_LITERAL \<and> content (tokens ! j) = ''*'' \<and>
            isolated tokens j \<and> res ! j = (tokens ! j)\<lparr>content := ''star_line''\<rparr>))) \<and>
   (no_adjacent_spaces tokens \<longrightarrow> (\<exists>res. replace_star_vars tokens = Inr res))"
proof -
  have c: "length (replace_column_vars tokens) = length tokens"
    and cn: "\<And>j. j < length tokens \<Longrightarrow> replace_column_vars tokens ! j =
        (if ttype (tokens ! j) \<noteq> STRING_LITERAL then
           (case replace_rbql_var (content (tokens ! j)) of
              Some v \<Rightarrow> (tokens ! j)\<lparr>content := v\<rparr>
            | None \<Rightarrow> tokens ! j)
         else tokens ! j)"
    using replace_column_vars_loop_spec[of tokens 0] by (simp_all add: replace_column_vars_def)
  have col: "ttype (replace_column_vars tokens ! j) = ttype (tokens ! j) \<and>
      (ttype (tokens ! j) = STRING_LITERAL \<longrightarrow> replace_column_vars tokens ! j = tokens ! j) \<and>
      (replace_column_vars tokens ! j \<noteq> tokens ! j \<longrightarrow>
         ttype (tokens ! j) \<noteq> STRING_LITERAL \<and>
         (column_match (CHR ''a'') (content (tokens ! j)) \<noteq> None \<or>
          column_match (CHR ''b'') (content (tokens ! j)) \<noteq> None))"
    if "j < length tokens" for j
    unfolding cn[OF that]
    by (auto simp: replace_rbql_var_def split: option.splits)
  have i0: "star_inv tokens tokens 0" by (simp add: star_inv_def)
  have star: "length res = length tokens \<and>
      (\<forall>j < length tokens.
         ttype (res ! j) = ttype (tokens ! j) \<and>
         (ttype (tokens ! j) = STRING_LITERAL \<longrightarrow> res ! j = tokens ! j) \<and>
         (res ! j \<noteq> tokens ! j \<longrightarrow>
            ttype (tokens ! j) \<noteq> STRING_LITERAL \<and> content (tokens ! j) = ''*'' \<and>
            isolated tokens j \<and> res ! j = (tokens ! j)\<lparr>content := ''star_line''\<rparr>))"
    if "replace_star_vars tokens = Inr res" for res
    using replace_star_vars_loop_inv[OF i0 that[unfolded replace_star_vars_def]]
    unfolding star_inv_def by auto
  have tot: "\<exists>res. replace_star_vars tokens = Inr res" if "no_adjacent_spaces tokens"
    using replace_star_vars_loop_total[OF i0 that] by (simp add: replace_star_vars_def)
  show ?thesis using c col star tot by blast
qed

theorem rewriters_keep_string_literals_witness:
  "replace_column_vars
     [Tok ALPHANUM_RAW ''a1'', Tok SYMBOL_RAW '','', Tok WHITESPACE '' '', Tok SYMBOL_RAW ''*'',
      Tok SYMBOL_RAW '','', Tok WHITESPACE '' '', Tok STRING_LITERAL ''a2 *'']
   = [Tok ALPHANUM_RAW ''fields[0]'', Tok SYMBOL_RAW '','', Tok WHITESPACE '' '',
      Tok SYMBOL_RAW ''*'', Tok SYMBOL_RAW '','', Tok WHITESPACE '' '',
      Tok STRING_LITERAL ''a2 *''] \<and>
   replace_star_vars
     [Tok ALPHANUM_RAW ''a1'', Tok SYMBOL_RAW '','', Tok WHITESPACE '' '', Tok SYMBOL_RAW ''*'',
      Tok SYMBOL_RAW '','', Tok WHITESPACE '' '', Tok STRING_LITERAL ''a2 *'']
   = Inr [Tok ALPHANUM_RAW ''a1'', Tok SYMBOL_RAW '','', Tok WHITESPACE '' '',
      Tok SYMBOL_RAW ''star_line'', Tok SYMBOL_RAW '','', Tok WHITESPACE '' '',
      Tok STRING_LITERAL ''a2 *''] \<and>
   no_adjacent_spaces
     [Tok ALPHANUM_RAW ''a1'', Tok SYMBOL_RAW '','', Tok WHITESPACE '' '', Tok SYMBOL_RAW ''*'',
      Tok SYMBOL_RAW '','', Tok WHITESPACE '' '', Tok STRING_LITERAL ''a2 *''] \<and>
   isolated
     [Tok ALPHANUM_RAW ''a1'', Tok SYMBOL_RAW '','', Tok WHITESPACE '' '', Tok SYMBOL_RAW ''*'',
      Tok SYMBOL_RAW '','', Tok WHITESPACE '' '', Tok STRING_LITERAL ''a2 *''] 3 \<and>
   column_match (CHR ''a'') ''a1'' \<noteq> None"
proof -
  let ?T = "[Tok ALPHANUM_RAW ''a1'', Tok SYMBOL_RAW '','', Tok WHITESPACE '' '', Tok SYMBOL_RAW ''*'',
      Tok SYMBOL_RAW '','', Tok WHITESPACE '' '', Tok STRING_LITERAL ''a2 *'']"
  let ?R = "[Tok ALPHANUM_RAW ''a1'', Tok SYMBOL_RAW '','', Tok WHITESPACE '' '',
      Tok SYMBOL_RAW ''star_line'', Tok SYMBOL_RAW '','', Tok WHITESPACE '' '',
      Tok STRING_LITERAL ''a2 *'']"
  have c: "replace_column_vars ?T = [Tok ALPHANUM_RAW ''fields[0]'', Tok SYMBOL_RAW '','',
      Tok WHITESPACE '' '', Tok SYMBOL_RAW ''*'', Tok SYMBOL_RAW '','', Tok WHITESPACE '' '',
      Tok STRING_LITERAL ''a2 *'']"
    by code_simp
  have s: "replace_star_vars ?T = Inr ?R" by code_simp
  have n: "no_adjacent_spaces ?T" by (simp add: Tok_def)
  have d3: "?R ! 3 \<noteq> ?T ! 3" by (simp add: Tok_def)
  have d0: "replace_column_vars ?T ! 0 \<noteq> ?T ! 0" unfolding c by (simp add: Tok_def)
  have l3: "(3::nat) < length ?T" and l0: "(0::nat) < length ?T" by simp_all
  from rewriters_keep_string_literals [of ?T] s l3 d3 have "isolated ?T 3" by blast
  moreover from rewriters_keep_string_literals [of ?T] l0 d0
  have "column_match (CHR ''a'') (content (?T ! 0)) \<noteq> None \<or>
        column_match (CHR ''b'') (content (?T ! 0)) \<noteq> None" by blast
  then have "column_match (CHR ''a'') ''a1'' \<noteq> None"
    by (simp add: Tok_def column_match_def)
  ultimately show ?thesis using c s n by blast
qed

section \<open>Properties of the join expression parser\<close>


lemma column_match_disjoint:
  "column_match (CHR ''a'') w \<noteq> None \<Longrightarrow> column_match (CHR ''b'') w = None"
  by (auto simp: column_match_def Let_def split: list.splits if_splits)

lemma replace_rbql_var_a: "column_match (CHR ''a'') w = Some ds \<Longrightarrow> replace_rbql_var w = Some (fields_ref ds)"
  by (simp add: replace_rbql_var_def fields_ref_def)

lemma replace_rbql_var_b: "column_match (CHR ''b'') w = Some ds \<Longrightarrow> replace_rbql_var w = Some (bfields_ref ds)"
  using column_match_disjoint[of w]
  by (cases "column_match (CHR ''a'') w") (auto simp: replace_rbql_var_def bfields_ref_def)

text \<open>
  Claim C5.  Let \<open>words\<close> be the joined and stripped body of the join clause split at
  spaces.  \<open>parse_join_expression\<close> succeeds iff there are exactly five words, the
  second is \<open>ON\<close> in any letter case, the fourth is \<open>==\<close>, and of the third and the
  fifth one matches the A-column pattern and the other the B-column pattern, in either
  order.  In every other case it raises the parsing error with the join syntax message.
  On success it returns the first word as the B path, \<open>fields[i-1]\<close> for the A-column
  word and \<open>bfields[j-1]\<close> for the B-column word.
\<close>

theorem parse_join_expression_spec:
  assumes "words = split_on (CHR '' '') (join_tokens tokens)"
  shows
    "((\<exists>r. parse_join_expression tokens = Inr r) \<longleftrightarrow>
        length words = 5 \<and> upper (words ! 1) = ''ON'' \<and> words ! 3 = ''=='' \<and>
        ((column_match (CHR ''a'') (words ! 2) \<noteq> None \<and> column_match (CHR ''b'') (words ! 4) \<noteq> None) \<or>
         (column_match (CHR ''b'') (words ! 2) \<noteq> None \<and> column_match (CHR ''a'') (words ! 4) \<noteq> None))) \<and>
     ((\<forall>r. parse_join_expression tokens \<noteq> Inr r) \<longrightarrow>
        parse_join_expression tokens = Inl (RBParsingError syntax_err_msg)) \<and>
     (\<forall>r. parse_join_expression tokens = Inr r \<longrightarrow>
        (\<exists>i j. r = (words ! 0, Some (fields_ref i), Some (bfields_ref j)) \<and>
           ((column_match (CHR ''a'') (words ! 2) = Some i \<and> column_match (CHR ''b'') (words ! 4) = Some j) \<or>
            (column_match (CHR ''a'') (words ! 4) = Some i \<and> column_match (CHR ''b'') (words ! 2) = Some j))))"
proof (cases "length words = 5 \<and> upper (words ! 1) = ''ON'' \<and> words ! 3 = ''==''")
  case False
  then show ?thesis
    unfolding parse_join_expression_def assms[symmetric] Let_def by auto
next
  case True
  then have len: "length words = 5" by simp
  show ?thesis
  proof (cases "column_match (CHR ''a'') (words ! 4)")
    case None
    show ?thesis
    proof (cases "column_match (CHR ''a'') (words ! 2)")
      case n2: None
      show ?thesis
        unfolding parse_join_expression_def assms[symmetric] Let_def
        using True None n2 by auto
    next
      case (Some i)
      show ?thesis
      proof (cases "column_match (CHR ''b'') (words ! 4)")
        case n4: None
        show ?thesis
          unfolding parse_join_expression_def assms[symmetric] Let_def
          using True None Some n4 column_match_disjoint[of "words ! 2"] by auto
      next
        case s4: (Some j)
        show ?thesis
          unfolding parse_join_expression_def assms[symmetric] Let_def
          using True None Some s4 replace_rbql_var_a[OF Some] replace_rbql_var_b[OF s4] by auto
      qed
    qed
  next
    case (Some i)
    have sw: "(words[2 := words ! 4, 4 := words ! 2]) ! 2 = words ! 4"
      "(words[2 := words ! 4, 4 := words ! 2]) ! 4 = words ! 2"
      "(words[2 := words ! 4, 4 := words ! 2]) ! 0 = words ! 0"
      using len by simp_all
    show ?thesis
    proof (cases "column_match (CHR ''b'') (words ! 2)")
      case None
      show ?thesis
        unfolding parse_join_expression_def assms[symmetric] Let_def
        using True None Some sw column_match_disjoint[of "words ! 4"] by auto
    next
      case s2: (Some j)
      show ?thesis
        unfolding parse_join_expression_def assms[symmetric] Let_def
        using True Some s2 sw replace_rbql_var_a[OF Some] replace_rbql_var_b[OF s2]
          column_match_disjoint[of "words ! 4"] by auto
    qed
  qed
qed


theorem parse_join_expression_spec_witness:
  "[''/tmp/B'', ''on'', ''b2'', ''=='', ''a10''] = split_on (CHR '' '') (join_tokens
     [Tok SYMBOL_RAW ''/'', Tok ALPHANUM_RAW ''tmp'', Tok SYMBOL_RAW ''/'', Tok ALPHANUM_RAW ''B'',
      Tok WHITESPACE '' '', Tok ALPHANUM_RAW ''on'', Tok WHITESPACE '' '', Tok ALPHANUM_RAW ''b2'',
      Tok WHITESPACE '' '', Tok SYMBOL_RAW ''='', Tok SYMBOL_RAW ''='', Tok WHITESPACE '' '',
      Tok ALPHANUM_RAW ''a10'']) \<and>
   parse_join_expression
     [Tok SYMBOL_RAW ''/'', Tok ALPHANUM_RAW ''tmp'', Tok SYMBOL_RAW ''/'', Tok ALPHANUM_RAW ''B'',
      Tok WHITESPACE '' '', Tok ALPHANUM_RAW ''on'', Tok WHITESPACE '' '', Tok ALPHANUM_RAW ''b2'',
      Tok WHITESPACE '' '', Tok SYMBOL_RAW ''='', Tok SYMBOL_RAW ''='', Tok WHITESPACE '' '',
      Tok ALPHANUM_RAW ''a10'']
     = Inr (''/tmp/B'', Some ''fields[9]'', Some ''bfields[1]'') \<and>
   [''B'', ''on'', ''a2'', ''=='', ''a10''] = split_on (CHR '' '') (join_tokens
     [Tok ALPHANUM_RAW ''B'', Tok WHITESPACE '' '', Tok ALPHANUM_RAW ''on'', Tok WHITESPACE '' '',
      Tok ALPHANUM_RAW ''a2'', Tok WHITESPACE '' '', Tok SYMBOL_RAW ''='', Tok SYMBOL_RAW ''='',
      Tok WHITESPACE '' '', Tok ALPHANUM_RAW ''a10'']) \<and>
   parse_join_expression
     [Tok ALPHANUM_RAW ''B'', Tok WHITESPACE '' '', Tok ALPHANUM_RAW ''on'', Tok WHITESPACE '' '',
      Tok ALPHANUM_RAW ''a2'', Tok WHITESPACE '' '', Tok SYMBOL_RAW ''='', Tok SYMBOL_RAW ''='',
      Tok WHITESPACE '' '', Tok ALPHANUM_RAW ''a10'']
     = Inl (RBParsingError
         (''Incorrect join syntax. Must be: '' @ [dquote] @
          ''<JOIN> /path/to/B/table on a<i> == b<j>'' @ [dquote]))"
proof -
  let ?T1 = "[Tok SYMBOL_RAW ''/'', Tok ALPHANUM_RAW ''tmp'', Tok SYMBOL_RAW ''/'', Tok ALPHANUM_RAW ''B'',
      Tok WHITESPACE '' '', Tok ALPHANUM_RAW ''on'', Tok WHITESPACE '' '', Tok ALPHANUM_RAW ''b2'',
      Tok WHITESPACE '' '', Tok SYMBOL_RAW ''='', Tok SYMBOL_RAW ''='', Tok WHITESPACE '' '',
      Tok ALPHANUM_RAW ''a10'']"
  let ?T2 = "[Tok ALPHANUM_RAW ''B'', Tok WHITESPACE '' '', Tok ALPHANUM_RAW ''on'', Tok WHITESPACE '' '',
      Tok ALPHANUM_RAW ''a2'', Tok WHITESPACE '' '', Tok SYMBOL_RAW ''='', Tok SYMBOL_RAW ''='',
      Tok WHITESPACE '' '', Tok ALPHANUM_RAW ''a10'']"
  have w1: "[''/tmp/B'', ''on'', ''b2'', ''=='', ''a10''] = split_on (CHR '' '') (join_tokens ?T1)"
    by code_simp
  have w2: "[''B'', ''on'', ''a2'', ''=='', ''a10''] = split_on (CHR '' '') (join_tokens ?T2)"
    by code_simp
  have e1: "parse_join_expression ?T1 = Inr (''/tmp/B'', Some ''fields[9]'', Some ''bfields[1]'')"
    by code_simp
  have b2: "column_match (CHR ''b'') ''a2'' = None" "column_match (CHR ''b'') ''a10'' = None"
    by (simp_all add: column_match_def)
  have "\<forall>r. parse_join_expression ?T2 \<noteq> Inr r"
    using parse_join_expression_spec [OF w2] b2 by simp
  then have "parse_join_expression ?T2 = Inl (RBParsingError syntax_err_msg)"
    using parse_join_expression_spec [OF w2] by blast
  then show ?thesis using w1 w2 e1 by (simp add: syntax_err_msg_def)
qed

section \<open>Properties of the LIKE predicate\<close>


lemma like_loop_spec:
  "p \<le> i \<Longrightarrow> i \<le> length pattern \<Longrightarrow>
     like_loop esc pattern p i converted =
       ''^'' @ converted @ like_body esc (slice pattern p i) (drop i pattern) @ ''$''"
proof (induction esc pattern p i converted rule: like_loop.induct)
  case (1 esc pattern p i converted)
  show ?case
  proof (cases "i < length pattern")
    case False
    with "1.prems" show ?thesis by (subst like_loop.simps) simp
  next
    case True
    then have d: "drop i pattern = pattern ! i # drop (i + 1) pattern"
      by (simp add: Cons_nth_drop_Suc)
    have sl: "slice pattern p (i + 1) = slice pattern p i @ [pattern ! i]"
      using True "1.prems"(1) by (simp add: slice_def Suc_diff_le take_Suc_conv_app_nth)
    have se: "slice pattern (i + 1) (i + 1) = []" by (simp add: slice_def)
    show ?thesis
    proof (cases "pattern ! i \<in> {CHR ''_'', CHR ''%''}")
      case w: True
      have "like_loop esc pattern p i converted =
          like_loop esc pattern (i + 1) (i + 1)
            (if pattern ! i = CHR ''_'' then (converted @ esc (slice pattern p i)) @ ''.''
             else (converted @ esc (slice pattern p i)) @ ''.*'')"
        using True w by (subst like_loop.simps) (simp add: Let_def)
      also have "\<dots> = ''^'' @ (if pattern ! i = CHR ''_'' then (converted @ esc (slice pattern p i)) @ ''.''
             else (converted @ esc (slice pattern p i)) @ ''.*'')
            @ like_body esc (slice pattern (i + 1) (i + 1)) (drop (i + 1) pattern) @ ''$''"
        using "1.IH"(1)[OF True w refl refl refl] True by simp
      also have "\<dots> = ''^'' @ converted @ like_body esc (slice pattern p i) (drop i pattern) @ ''$''"
        using w unfolding d se by auto
      finally show ?thesis .
    next
      case nw: False
      have "like_loop esc pattern p i converted = like_loop esc pattern p (i + 1) converted"
        using True nw by (subst like_loop.simps) simp
      also have "\<dots> = ''^'' @ converted @ like_body esc (slice pattern p (i + 1)) (drop (i + 1) pattern) @ ''$''"
        using "1.IH"(2)[OF True nw] True "1.prems"(1) by simp
      also have "\<dots> = ''^'' @ converted @ like_body esc (slice pattern p i) (drop i pattern) @ ''$''"
        using nw unfolding d sl by simp
      finally show ?thesis .
    qed
  qed
qed

lemma like_to_regex_spec: "like_to_regex esc pattern = like_regex esc pattern"
  using like_loop_spec[of 0 0 pattern esc "[]"]
  by (simp add: like_to_regex_def like_regex_def slice_def)

lemma flike_call_ok:
  assumes "cache_ok esc re_compile cache"
  shows "fst (flike_call esc re_compile rx_match cache subj pattern) =
           rx_match (re_compile (like_regex esc pattern)) subj"
    and "cache_ok esc re_compile (snd (flike_call esc re_compile rx_match cache subj pattern))"
  using assms
  by (auto simp: flike_call_def cache_ok_def like_to_regex_spec Let_def split: option.splits if_splits)

lemma flike_calls_ok:
  "cache_ok esc re_compile cache \<Longrightarrow>
     flike_calls esc re_compile rx_match cache calls =
       map (\<lambda>(subj, pattern). rx_match (re_compile (like_regex esc pattern)) subj) calls"
proof (induction calls arbitrary: cache)
  case Nil then show ?case by simp
next
  case (Cons c calls)
  obtain subj pattern where c: "c = (subj, pattern)" by (cases c)
  obtain r cache' where f: "flike_call esc re_compile rx_match cache subj pattern = (r, cache')"
    by (cases "flike_call esc re_compile rx_match cache subj pattern")
  from flike_call_ok[OF Cons.prems, of rx_match subj pattern] f
  have "r = rx_match (re_compile (like_regex esc pattern)) subj" "cache_ok esc re_compile cache'"
    by simp_all
  with Cons.IH[of cache'] c f show ?case by simp
qed


text \<open>
  Claim C3.  For every text and every pattern, whatever the cache holds from earlier calls,
  \<open>flike\<close> returns whether the text matches the compiled regular expression obtained from
  the pattern by escaping the segments between the occurrences of \<open>_\<close> and \<open>%\<close>,
  putting \<open>.\<close> for each \<open>_\<close> and \<open>.*\<close> for each \<open>%\<close>, between \<open>^\<close> and \<open>$\<close>.
\<close>

theorem flike_matches_like_regex:
  "like_to_regex esc pattern = like_regex esc pattern \<and>
   fst (flike_call esc re_compile rx_match Map.empty subj pattern) =
     rx_match (re_compile (like_regex esc pattern)) subj \<and>
   flike_calls esc re_compile rx_match Map.empty calls =
     map (\<lambda>(subj, pattern). rx_match (re_compile (like_regex esc pattern)) subj) calls"
proof -
  have e: "cache_ok esc re_compile Map.empty" by (simp add: cache_ok_def)
  show ?thesis
    using like_to_regex_spec[of esc pattern] flike_call_ok(1)[OF e, of rx_match subj pattern]
      flike_calls_ok[OF e, of rx_match calls]
    by simp
qed

theorem flike_matches_like_regex_witness:
  "like_to_regex (\<lambda>s. s) ''%a_a'' = ''^.*a.a$'' \<and>
   like_to_regex (\<lambda>s. ''<'' @ s @ ''>'') ''ab%_c.d'' = ''^<ab>.*<>.<c.d>$''"
  using flike_matches_like_regex [of "\<lambda>s. s" "''%a_a''" id "\<lambda>r s. True" "[]" "[]"]
    flike_matches_like_regex [of "\<lambda>s. ''<'' @ s @ ''>''" "''ab%_c.d''" id "\<lambda>r s. True" "[]" "[]"]
  by (simp add: like_regex_def)
section \<open>Properties of ORDER BY\<close>

lemma written_foldl_simple:
  "written (foldl (\<lambda>st e. writer_write SimpleWriter (snd e) st) st es) = written st @ map snd es"
  by (induction es arbitrary: st) (simp_all add: writer_write_def)

lemma endswith_upper_desc:
  "snd (parse_order_by e) \<longleftrightarrow> endswith (upper e) '' DESC''"
  by (simp add: parse_order_by_def Let_def split: prod.splits if_splits)

lemma ranked_totally_ordered:
  assumes "ranked eq lt r (set ks)"
  shows "totally_ordered eq lt ks"
proof -
  have le: "key_le eq lt a b \<longleftrightarrow> r a \<le> r b" if "a \<in> set ks" "b \<in> set ks" for a b
    using assms that by (auto simp: ranked_def key_le_def)
  show ?thesis
    unfolding totally_ordered_def list_all_iff
  proof (intro ballI conjI)
    fix a b assume ab: "a \<in> set ks" "b \<in> set ks"
    from assms ab have e: "eq a b = (r a = r b)" "lt a b = Some (r a < r b)" "lt b a = Some (r b < r a)"
      by (auto simp: ranked_def)
    show "lt a b \<noteq> None" using e by simp
    show "(eq a b \<and> lt a b \<noteq> Some True \<and> lt b a \<noteq> Some True) \<or>
          (\<not> eq a b \<and> lt a b = Some True \<and> lt b a \<noteq> Some True) \<or>
          (\<not> eq a b \<and> lt a b \<noteq> Some True \<and> lt b a = Some True)"
      unfolding e by auto
    fix c assume c: "c \<in> set ks"
    show "if key_le eq lt a b \<and> key_le eq lt b c then key_le eq lt a c else True"
      using le[OF ab] le[OF ab(2) c] le[OF ab(1) c] by auto
  qed
qed

lemma entry_less_ranked:
  assumes "ranked eq lt r K" "fst a \<in> K" "fst b \<in> K"
  shows "entry_less eq lt a b = Some (rank_entry r a < rank_entry r b)"
proof -
  from assms have e: "eq (fst a) (fst b) = (r (fst a) = r (fst b))"
    "lt (fst a) (fst b) = Some (r (fst a) < r (fst b))"
    by (auto simp: ranked_def)
  show ?thesis
    unfolding entry_less_def e rank_entry_def by (auto simp: less_prod_def)
qed

lemma insort_less_ranked:
  assumes "ranked eq lt r K" "fst x \<in> K" "fst ` set ys \<subseteq> K"
  shows "insort_less (entry_less eq lt) x ys = insort_key (rank_entry r) x ys"
  using assms(3)
proof (induction ys)
  case Nil show ?case by simp
next
  case (Cons y ys)
  then have y: "fst y \<in> K" and ys: "fst ` set ys \<subseteq> K" by auto
  from entry_less_ranked[OF assms(1) y assms(2)] Cons.IH[OF ys]
  show ?case by (auto simp: not_less)
qed

lemma stable_sort_ranked:
  assumes "ranked eq lt r K" "fst ` set es \<subseteq> K"
  shows "stable_sort (entry_less eq lt) es = sort_key (rank_entry r) es"
  using assms(2)
proof (induction es)
  case Nil show ?case by (simp add: stable_sort_def)
next
  case (Cons e es)
  then have e: "fst e \<in> K" and es: "fst ` set es \<subseteq> K" by auto
  have s: "fst ` set (sort_key (rank_entry r) es) \<subseteq> K" using es by simp
  have "stable_sort (entry_less eq lt) (e # es)
          = insort_less (entry_less eq lt) e (stable_sort (entry_less eq lt) es)"
    by (simp add: stable_sort_def)
  also have "\<dots> = insort_less (entry_less eq lt) e (sort_key (rank_entry r) es)"
    using Cons.IH[OF es] by simp
  also have "\<dots> = insort_key (rank_entry r) e (sort_key (rank_entry r) es)"
    by (rule insort_less_ranked[OF assms(1) e s])
  finally show ?case by (simp add: sort_key_def)
qed

lemma map_sort_key: "map f (sort_key f xs) = sort (map f xs)"
  by (rule properties_for_sort[symmetric]) simp_all

lemma map_sort_key_rev: "map f (sort_key f (rev xs)) = map f (sort_key f xs)"
proof -
  have "sort (map f (rev xs)) = sort (map f xs)"
    by (rule properties_for_sort) simp_all
  then show ?thesis by (simp add: map_sort_key)
qed

lemma py_sorted_ranked:
  assumes "ranked eq lt r (fst ` set es)"
  shows "py_sorted eq lt lib reverse es =
           Inr (if reverse then rev (sort_key (rank_entry r) (rev es))
                else sort_key (rank_entry r) es)"
proof -
  have t: "totally_ordered eq lt (map fst es)"
    by (rule ranked_totally_ordered) (use assms in simp)
  have a: "stable_sort (entry_less eq lt) es = sort_key (rank_entry r) es"
    by (rule stable_sort_ranked[OF assms]) simp
  have b: "stable_sort (entry_less eq lt) (rev es) = sort_key (rank_entry r) (rev es)"
    by (rule stable_sort_ranked[OF assms]) simp
  show ?thesis by (simp add: py_sorted_def t a b)
qed

lemma sorted_rank_nth:
  fixes A :: "('k \<times> string) list" and r :: "'k \<Rightarrow> 'l::linorder"
  assumes "sorted (map (rank_entry r) A)" "j < length A" "i < j"
  shows "r (fst (A ! i)) \<le> r (fst (A ! j)) \<and>
         (r (fst (A ! i)) = r (fst (A ! j)) \<longrightarrow> snd (A ! i) \<le> snd (A ! j))"
proof -
  from assms have "map (rank_entry r) A ! i \<le> map (rank_entry r) A ! j"
    by (intro sorted_nth_mono) simp_all
  with assms(2,3) have "rank_entry r (A ! i) \<le> rank_entry r (A ! j)" by simp
  then show ?thesis by (auto simp: rank_entry_def less_eq_prod_def)
qed

lemma emit_sorted_raises:
  assumes "unsorted_entries st \<noteq> []"
    and "\<not> totally_ordered (key_eq pl) (key_less pl) (map fst (unsorted_entries st))"
    and "lib_sorted pl (reverse_flag pl) (unsorted_entries st) = Inl msg"
  shows "emit_sorted pl st = (st, Some (TypeError msg))"
  using assms by (simp add: emit_sorted_def py_sorted_def)

text \<open>
  Sort keys that the host does not order.  In the query
  \<open>select a1 left join B on a2 == b1 order by b2\<close> the A record with the key \<open>car\<close> gets
  the sort key \<open>gas\<close> and the A record with the key \<open>boat\<close>, which B lacks, the sort key
  \<open>None\<close>.  Both entries are buffered; the sort after the loop raises, outside the
  \<^verbatim>\<open>try\<close> block, and nothing is written.
\<close>

lemma order_by_mixed_keys_raise:
  "unsorted_entries (fst (rb_transform
       (mixed_key_plan (Some (LeftJoiner [(PStr ''car'', RbqlList [PStr ''car'', PStr ''gas''])] 2)))
       (''10'' @ [tab] @ ''car'' @ [newline] @ ''5'' @ [tab] @ ''boat'' @ [newline])))
     = [(PStr ''gas'', ''10''), (PNone, ''5'')] \<and>
   written (fst (rb_transform
       (mixed_key_plan (Some (LeftJoiner [(PStr ''car'', RbqlList [PStr ''car'', PStr ''gas''])] 2)))
       (''10'' @ [tab] @ ''car'' @ [newline] @ ''5'' @ [tab] @ ''boat'' @ [newline])))
     = [] \<and>
   snd (rb_transform
       (mixed_key_plan (Some (LeftJoiner [(PStr ''car'', RbqlList [PStr ''car'', PStr ''gas''])] 2)))
       (''10'' @ [tab] @ ''car'' @ [newline] @ ''5'' @ [tab] @ ''boat'' @ [newline]))
     = Some (TypeError ([squote] @ ''<'' @ [squote] @ '' not supported between instances of '' @
          [squote] @ ''NoneType'' @ [squote] @ '' and '' @ [squote] @ ''str'' @ [squote]))"
  by code_simp

text \<open>
  Claim C1, amended.  Take a query with an ORDER BY clause whose buffered sort keys the
  host orders totally: on them \<open>==\<close> and \<open><\<close> never raise and agree with the ranks \<open>r\<close> of
  the keys in a linear order.  Then the sort returns, and the buffered entries are emitted
  in the order of the pairs of sort key and output record: the emitted sequence \<open>E\<close> is a
  rearrangement of the buffer; along the ascending sequence \<open>A\<close> no later sort key is less
  than an earlier one, and entries of equal sort key follow each other in the order of
  their record texts; without \<open>DESC\<close> the sequence \<open>E\<close> is \<open>A\<close>, with \<open>DESC\<close> the records
  and the ranks of the keys of \<open>E\<close> are exactly those of \<open>A\<close> in reverse; the direction is
  descending iff the upper-cased clause text ends with \<open>' DESC'\<close>.  With the simple writer
  the records of \<open>E\<close> are appended to the output in this order.
\<close>

theorem order_by_emits_sorted_pairs:
  fixes pl :: "'k plan" and r :: "'k \<Rightarrow> 'l::linorder"
  assumes "es = unsorted_entries st"
    and "\<forall>a \<in> fst ` set es. \<forall>b \<in> fst ` set es.
           key_eq pl a b = (r a = r b) \<and> key_less pl a b = Some (r a < r b)"
  shows "\<exists>E A.
    py_sorted (key_eq pl) (key_less pl) (lib_sorted pl) (reverse_flag pl) es = Inr E \<and>
    py_sorted (key_eq pl) (key_less pl) (lib_sorted pl) False es = Inr A \<and>
    mset E = mset es \<and> mset A = mset es \<and>
    emit_sorted pl st =
      (foldl (\<lambda>st e. writer_write (writer_kind pl) (snd e) st) st E, None) \<and>
    (writer_kind pl = SimpleWriter \<longrightarrow>
       written (fst (emit_sorted pl st)) = written st @ map snd E) \<and>
    (\<forall>j < length A. \<forall>i < j.
       key_less pl (fst (A ! j)) (fst (A ! i)) = Some False \<and>
       (key_eq pl (fst (A ! i)) (fst (A ! j)) \<longrightarrow> snd (A ! i) \<le> snd (A ! j))) \<and>
    (\<not> reverse_flag pl \<longrightarrow> E = A) \<and>
    (reverse_flag pl \<longrightarrow>
       map snd E = rev (map snd A) \<and> map (\<lambda>e. r (fst e)) E = rev (map (\<lambda>e. r (fst e)) A)) \<and>
    (snd (parse_order_by order_expression) \<longleftrightarrow> endswith (upper order_expression) '' DESC'')"
proof -
  let ?f = "rank_entry r"
  define A where "A = sort_key ?f es"
  define E where "E = (if reverse_flag pl then rev (sort_key ?f (rev es)) else A)"
  have rk: "ranked (key_eq pl) (key_less pl) r (fst ` set es)"
    using assms(2) by (simp add: ranked_def)
  have pe: "py_sorted (key_eq pl) (key_less pl) (lib_sorted pl) (reverse_flag pl) es = Inr E"
    unfolding py_sorted_ranked[OF rk] E_def A_def by simp
  have pa: "py_sorted (key_eq pl) (key_less pl) (lib_sorted pl) False es = Inr A"
    unfolding py_sorted_ranked[OF rk] A_def by simp
  have mA: "mset A = mset es" by (simp add: A_def)
  have mE: "mset E = mset es" by (simp add: E_def A_def)
  have em: "emit_sorted pl st =
      (foldl (\<lambda>st e. writer_write (writer_kind pl) (snd e) st) st E, None)"
  proof (cases "es = []")
    case True
    then have "E = []" by (simp add: E_def A_def)
    with True assms(1) show ?thesis by (simp add: emit_sorted_def)
  next
    case False
    with assms(1) pe show ?thesis by (simp add: emit_sorted_def)
  qed
  have w: "writer_kind pl = SimpleWriter \<longrightarrow>
       written (fst (emit_sorted pl st)) = written st @ map snd E"
    unfolding em by (auto simp: written_foldl_simple)
  have sA: "sorted (map ?f A)" by (simp add: A_def)
  have setA: "set A = set es" by (simp add: A_def)
  have asc: "key_less pl (fst (A ! j)) (fst (A ! i)) = Some False \<and>
       (key_eq pl (fst (A ! i)) (fst (A ! j)) \<longrightarrow> snd (A ! i) \<le> snd (A ! j))"
    if "j < length A" "i < j" for i j
  proof -
    from that have i: "i < length A" by simp
    have ki: "fst (A ! i) \<in> fst ` set es" using i setA nth_mem by blast
    have kj: "fst (A ! j) \<in> fst ` set es" using that(1) setA nth_mem by blast
    from assms(2) ki kj have
      l: "key_less pl (fst (A ! j)) (fst (A ! i)) = Some (r (fst (A ! j)) < r (fst (A ! i)))"
      and e: "key_eq pl (fst (A ! i)) (fst (A ! j)) = (r (fst (A ! i)) = r (fst (A ! j)))"
      by blast+
    from sorted_rank_nth[OF sA that] show ?thesis unfolding l e by (simp add: not_less)
  qed
  have sf: "map snd xs = map snd (map ?f xs)" "map (\<lambda>e. r (fst e)) xs = map fst (map ?f xs)"
    for xs :: "('k \<times> string) list"
    by (simp_all add: rank_entry_def comp_def)
  have rv: "map ?f (sort_key ?f (rev es)) = map ?f A"
    unfolding A_def by (rule map_sort_key_rev)
  have d: "reverse_flag pl \<longrightarrow>
       map snd E = rev (map snd A) \<and> map (\<lambda>e. r (fst e)) E = rev (map (\<lambda>e. r (fst e)) A)"
  proof
    assume "reverse_flag pl"
    then have E: "E = rev (sort_key ?f (rev es))" by (simp add: E_def)
    have "map snd E = rev (map snd (map ?f (sort_key ?f (rev es))))"
      unfolding E by (simp add: rev_map rank_entry_def comp_def)
    also have "\<dots> = rev (map snd A)" unfolding rv by (simp add: rank_entry_def comp_def)
    finally have 1: "map snd E = rev (map snd A)" .
    have "map (\<lambda>e. r (fst e)) E = rev (map fst (map ?f (sort_key ?f (rev es))))"
      unfolding E by (simp add: rev_map rank_entry_def comp_def)
    also have "\<dots> = rev (map (\<lambda>e. r (fst e)) A)"
      unfolding rv by (simp add: rank_entry_def comp_def)
    finally have 2: "map (\<lambda>e. r (fst e)) E = rev (map (\<lambda>e. r (fst e)) A)" .
    from 1 2 show "map snd E = rev (map snd A) \<and>
        map (\<lambda>e. r (fst e)) E = rev (map (\<lambda>e. r (fst e)) A)" ..
  qed
  have n: "\<not> reverse_flag pl \<longrightarrow> E = A" by (simp add: E_def)
  show ?thesis
    using pe pa mE mA em w asc n d endswith_upper_desc[of order_expression] by blast
qed

theorem order_by_emits_sorted_pairs_witness:
  "written (fst (emit_sorted (tie_plan False)
     \<lparr>unsorted_entries = [(2, ''x''), (1, ''b''), (1, ''a'')], written = [], seen = {},
      where_evals = 3\<rparr>)) = [''a'', ''b'', ''x''] \<and>
   written (fst (emit_sorted (tie_plan True)
     \<lparr>unsorted_entries = [(2, ''x''), (1, ''b''), (1, ''a'')], written = [], seen = {},
      where_evals = 3\<rparr>)) = [''x'', ''b'', ''a''] \<and>
   snd (parse_order_by ''int(a1) Desc'')"
proof -
  let ?es = "[(2::int, ''x''), (1, ''b''), (1, ''a'')]"
  let ?st = "\<lparr>unsorted_entries = ?es, written = [], seen = {}, where_evals = 3\<rparr> :: int rb_state"
  have es: "?es = unsorted_entries ?st" by simp
  have rk: "\<forall>a \<in> fst ` set ?es. \<forall>b \<in> fst ` set ?es.
      key_eq (tie_plan rv) a b = ((\<lambda>k. k) a = (\<lambda>k. k) b) \<and>
      key_less (tie_plan rv) a b = Some ((\<lambda>k. k) a < (\<lambda>k. k) b)" for rv
    by (simp add: tie_plan_def int_eq_def int_less_def)
  have k: "writer_kind (tie_plan rv) = SimpleWriter" for rv by (simp add: tie_plan_def)
  have a: "py_sorted (key_eq (tie_plan False)) (key_less (tie_plan False))
             (lib_sorted (tie_plan False)) (reverse_flag (tie_plan False)) ?es
           = Inr [(1, ''a''), (1, ''b''), (2, ''x'')]"
    by code_simp
  have b: "py_sorted (key_eq (tie_plan True)) (key_less (tie_plan True))
             (lib_sorted (tie_plan True)) (reverse_flag (tie_plan True)) ?es
           = Inr [(2, ''x''), (1, ''b''), (1, ''a'')]"
    by code_simp
  have u: "endswith (upper ''int(a1) Desc'') '' DESC''"
    by (simp add: endswith_def upper_def upper_char_def)
  from order_by_emits_sorted_pairs [OF es rk, of False "''int(a1) Desc''"]
  obtain E where E: "py_sorted (key_eq (tie_plan False)) (key_less (tie_plan False))
             (lib_sorted (tie_plan False)) (reverse_flag (tie_plan False)) ?es = Inr E"
    "writer_kind (tie_plan False) = SimpleWriter \<longrightarrow>
       written (fst (emit_sorted (tie_plan False) ?st)) = written ?st @ map snd E"
    "snd (parse_order_by ''int(a1) Desc'') \<longleftrightarrow> endswith (upper ''int(a1) Desc'') '' DESC''"
    by blast
  from E(1) a have "E = [(1, ''a''), (1, ''b''), (2, ''x'')]" by simp
  with E(2,3) k u have 1: "written (fst (emit_sorted (tie_plan False) ?st)) = [''a'', ''b'', ''x'']"
    "snd (parse_order_by ''int(a1) Desc'')" by simp_all
  from order_by_emits_sorted_pairs [OF es rk, of True "''int(a1) Desc''"]
  obtain E' where E': "py_sorted (key_eq (tie_plan True)) (key_less (tie_plan True))
             (lib_sorted (tie_plan True)) (reverse_flag (tie_plan True)) ?es = Inr E'"
    "writer_kind (tie_plan True) = SimpleWriter \<longrightarrow>
       written (fst (emit_sorted (tie_plan True) ?st)) = written ?st @ map snd E'"
    by blast
  from E'(1) b have "E' = [(2, ''x''), (1, ''b''), (1, ''a'')]" by simp
  with E'(2) k have 2: "written (fst (emit_sorted (tie_plan True) ?st)) = [''x'', ''b'', ''a'']"
    by simp
  from 1 2 show ?thesis by blast
qed

text \<open>
  Claim C1 as stated fails on ties.  In the query \<open>select a1 order by 1\<close> on the records
  \<open>b\<close> and \<open>a\<close> both buffered entries have the sort key \<open>1\<close>; they are buffered in the
  order \<open>b\<close>, \<open>a\<close> and emitted in the order \<open>a\<close>, \<open>b\<close>.
\<close>

theorem order_by_ties_counterexample:
  "unsorted_entries (fst (rb_loop (tie_plan False) 1
       (rows (''b'' @ [newline] @ ''a'' @ [newline]) 1024 newline) rb_init))
     = [(1, ''b''), (1, ''a'')] \<and>
   written (fst (rb_transform (tie_plan False) (''b'' @ [newline] @ ''a'' @ [newline])))
     = [''a'', ''b''] \<and>
   snd (rb_transform (tie_plan False) (''b'' @ [newline] @ ''a'' @ [newline])) = None"
  by code_simp

section \<open>Properties of the joiners and of error reporting\<close>


lemma read_join_loop_max:
  "read_join_loop dlm rhs il lines result fml = Inr (d, n) \<Longrightarrow>
     n = fold max (map (\<lambda>l. length (split_on dlm (rstrip_crlf l))) lines) fml"
proof (induction lines arbitrary: il result fml)
  case Nil then show ?case by simp
next
  case (Cons line lines)
  then show ?case
    by (auto simp: Let_def max.commute split: sum.splits exc.splits if_splits)
qed

lemma fold_max_Max: "fold max xs (a::nat) = Max (set (a # xs))"
  by (simp only: Max.set_eq_fold)

lemma make_left_joiner:
  assumes "make_joiner LeftJoinerT dlm rhs path b_file = Inr (Some jn)"
  shows "\<exists>join_data n src. b_file = Some src \<and> jn = LeftJoiner join_data n \<and>
           n = Max (set (0 # map (\<lambda>l. length (split_on dlm (rstrip_crlf l))) (rows src 1024 newline)))"
proof -
  from assms obtain d n where r: "read_join_table dlm rhs path b_file = Inr (d, n)"
    and jn: "jn = LeftJoiner d n"
    by (auto simp: make_joiner_def split: sum.splits)
  from r obtain src where src: "b_file = Some src"
    and l: "read_join_loop dlm rhs 1 (rows src 1024 newline) [] 0 = Inr (d, n)"
    by (auto simp: read_join_table_def split: option.splits)
  from read_join_loop_max[OF l] have "n = Max (set (0 # map (\<lambda>l. length (split_on dlm (rstrip_crlf l))) (rows src 1024 newline)))"
    by (simp only: fold_max_Max)
  with src jn show ?thesis by blast
qed

lemma left_join_step_not_skipped:
  "the_joiner pl = Some (LeftJoiner d n) \<Longrightarrow> join_step pl line c \<noteq> Inr None"
  by (auto simp: join_step_def split: sum.splits option.splits)

lemma writer_write_where_evals: "where_evals (writer_write w r st) = where_evals st"
  by (cases w) (simp_all add: writer_write_def)

lemma emit_step_where_evals:
  "emit_step pl c st = Inr st' \<Longrightarrow> where_evals st' = where_evals st + 1"
  by (auto simp: emit_step_def Let_def writer_write_where_evals split: sum.splits bool.splits if_splits)

lemma left_process_record_where_evals:
  "the_joiner pl = Some (LeftJoiner d n) \<Longrightarrow> process_record pl nr line st = Inr st' \<Longrightarrow>
     where_evals st' = where_evals st + 1"
  using left_join_step_not_skipped[of pl d n]
  by (auto simp: process_record_def Let_def split: sum.splits option.splits dest: emit_step_where_evals)

lemma left_rb_loop_where_evals:
  "the_joiner pl = Some (LeftJoiner d n) \<Longrightarrow> rb_loop pl nr lines st = (st', None) \<Longrightarrow>
     where_evals st' = where_evals st + length lines"
proof (induction lines arbitrary: nr st)
  case Nil then show ?case by simp
next
  case (Cons line lines)
  from Cons.prems(2) obtain st2 where p: "process_record pl nr line st = Inr st2"
    and r: "rb_loop pl (nr + 1) lines st2 = (st', None)"
    by (auto split: sum.splits)
  from left_process_record_where_evals[OF Cons.prems(1) p] Cons.IH[OF Cons.prems(1) r]
  show ?case by simp
qed

lemma foldl_writer_where_evals:
  "where_evals (foldl (\<lambda>st e. writer_write w (snd e) st) st es) = where_evals st"
  by (induction es arbitrary: st) (simp_all add: writer_write_where_evals)

lemma emit_sorted_where_evals: "where_evals (fst (emit_sorted pl st)) = where_evals st"
  by (simp add: emit_sorted_def foldl_writer_where_evals split: sum.splits)

lemma left_rb_transform_where_evals:
  fixes pl :: "'k plan"
  assumes "the_joiner pl = Some (LeftJoiner d n)" "snd (rb_transform pl source) = None"
  shows "where_evals (fst (rb_transform pl source)) = length (rows source 1024 newline)"
proof -
  obtain st err where l: "rb_loop pl 1 (rows source 1024 newline) rb_init = (st, err)"
    by (cases "rb_loop pl 1 (rows source 1024 newline) rb_init")
  with assms(2) have e: "err = None" by (cases err) (simp_all add: rb_transform_def)
  with l have t: "rb_transform pl source = emit_sorted pl st" by (simp add: rb_transform_def)
  from left_rb_loop_where_evals[OF assms(1) l[unfolded e]]
  have "where_evals st = length (rows source 1024 newline)" by (simp add: rb_init_def)
  with t show ?thesis by (simp add: emit_sorted_where_evals)
qed

text \<open>
  Claim C4.  For a LEFT JOIN whose B table was loaded, the joiner holds as
  \<open>fields_max_len\<close> the maximum field count over all B records (\<open>0\<close> without records);
  the lookup of a key absent from the B index returns a sequence of that many \<open>None\<close>,
  each of which is written as the text \<open>None\<close>; the join step never skips an A record;
  and in a run that ends without error the WHERE expression is evaluated once for each A
  record.
\<close>

theorem left_join_null_fill:
  fixes pl :: "'k plan"
  assumes "make_joiner LeftJoinerT dlm rhs path b_file = Inr (Some jn)"
    and "the_joiner pl = Some jn"
  shows "(\<exists>join_data n src.
            b_file = Some src \<and> jn = LeftJoiner join_data n \<and>
            n = Max (set (0 # map (\<lambda>l. length (split_on dlm (rstrip_crlf l)))
                                  (rows src 1024 newline))) \<and>
            (\<forall>key. map_of join_data key = None \<longrightarrow>
               joiner_get jn key = Inr (Some (PlainList (replicate n PNone))) \<and>
               map str6 (replicate n PNone) = replicate n ''None'')) \<and>
         join_step pl line c \<noteq> Inr None \<and>
         (rb_loop pl nr lines st = (st', None) \<longrightarrow>
            where_evals st' = where_evals st + length lines) \<and>
         (snd (rb_transform pl source) = None \<longrightarrow>
            where_evals (fst (rb_transform pl source)) = length (rows source 1024 newline))"
proof -
  from make_left_joiner[OF assms(1)] obtain join_data n src where
    j: "b_file = Some src" "jn = LeftJoiner join_data n"
       "n = Max (set (0 # map (\<lambda>l. length (split_on dlm (rstrip_crlf l))) (rows src 1024 newline)))"
    by blast
  have g: "joiner_get jn key = Inr (Some (PlainList (replicate n PNone))) \<and>
           map str6 (replicate n PNone) = replicate n ''None''"
    if "map_of join_data key = None" for key
    using that j(2) by simp
  have pj: "the_joiner pl = Some (LeftJoiner join_data n)" using assms(2) j(2) by simp
  have a: "join_step pl line c \<noteq> Inr None" by (rule left_join_step_not_skipped[OF pj])
  have b: "rb_loop pl nr lines st = (st', None) \<longrightarrow> where_evals st' = where_evals st + length lines"
    using left_rb_loop_where_evals[OF pj] by blast
  have t: "snd (rb_transform pl source) = None \<longrightarrow>
            where_evals (fst (rb_transform pl source)) = length (rows source 1024 newline)"
    using left_rb_transform_where_evals[OF pj] by blast
  from j g have "\<exists>join_data n src.
            b_file = Some src \<and> jn = LeftJoiner join_data n \<and>
            n = Max (set (0 # map (\<lambda>l. length (split_on dlm (rstrip_crlf l)))
                                  (rows src 1024 newline))) \<and>
            (\<forall>key. map_of join_data key = None \<longrightarrow>
               joiner_get jn key = Inr (Some (PlainList (replicate n PNone))) \<and>
               map str6 (replicate n PNone) = replicate n ''None'')"
    by blast
  with a b t show ?thesis by blast
qed


theorem left_join_null_fill_witness:
  "make_joiner LeftJoinerT tab 0 ''B'' (Some car_table)
     = Inr (Some (LeftJoiner [(PStr ''car'', RbqlList [PStr ''car'', PStr ''gas''])] 2)) \<and>
   joiner_get (LeftJoiner [(PStr ''car'', RbqlList [PStr ''car'', PStr ''gas''])] 2) (PStr ''boat'')
     = Inr (Some (PlainList [PNone, PNone])) \<and>
   written (fst (rb_transform
       (left_join_plan (Some (LeftJoiner [(PStr ''car'', RbqlList [PStr ''car'', PStr ''gas''])] 2)) 1)
       (''5'' @ [tab] @ ''boat'' @ [newline] @ ''10'' @ [tab] @ ''car'' @ [newline])))
     = [''None'', ''gas''] \<and>
   where_evals (fst (rb_transform
       (left_join_plan (Some (LeftJoiner [(PStr ''car'', RbqlList [PStr ''car'', PStr ''gas''])] 2)) 1)
       (''5'' @ [tab] @ ''boat'' @ [newline] @ ''10'' @ [tab] @ ''car'' @ [newline])))
     = 2"
proof -
  let ?J = "LeftJoiner [(PStr ''car'', RbqlList [PStr ''car'', PStr ''gas''])] 2"
  let ?pl = "left_join_plan (Some ?J) 1"
  let ?src = "''5'' @ [tab] @ ''boat'' @ [newline] @ ''10'' @ [tab] @ ''car'' @ [newline]"
  have mk: "make_joiner LeftJoinerT tab 0 ''B'' (Some car_table) = Inr (Some ?J)" by code_simp
  have pj: "the_joiner ?pl = Some ?J" by (simp add: left_join_plan_def)
  have g: "joiner_get ?J (PStr ''boat'') = Inr (Some (PlainList [PNone, PNone]))" by code_simp
  have w: "written (fst (rb_transform ?pl ?src)) = [''None'', ''gas'']" by code_simp
  have e: "snd (rb_transform ?pl ?src) = None" by code_simp
  have r: "length (rows ?src 1024 newline) = 2" by code_simp
  have "snd (rb_transform ?pl ?src) = None \<longrightarrow>
          where_evals (fst (rb_transform ?pl ?src)) = length (rows ?src 1024 newline)"
    using left_join_null_fill [OF mk pj] by blast
  with e r have "where_evals (fst (rb_transform ?pl ?src)) = 2" by simp
  with mk g w show ?thesis by blast
qed

lemma getitem_rbql_out_of_range:
  "\<not> (- int (length xs) \<le> idx \<and> idx < int (length xs)) \<Longrightarrow>
     getitem (RbqlList xs) idx = Inl (BadFieldError idx)"
  by (auto simp: getitem_def Let_def)

lemma bad_field_reported_as_a_column:
  assumes "c0 = \<lparr>NR = nr, NF = length (split_on (DLM pl) (rstrip_crlf line)),
                  fieldsA = RbqlList (map PStr (split_on (DLM pl) (rstrip_crlf line))),
                  bfields = None, star_line = rstrip_crlf line\<rparr>"
    and "join_step pl (rstrip_crlf line) c0 = Inl (BadFieldError k) \<or>
         (\<exists>c. join_step pl (rstrip_crlf line) c0 = Inr (Some c) \<and>
              emit_step pl c st = Inl (BadFieldError k))"
  shows "process_record pl nr line st =
           Inl (RbqlRuntimeError
                 (''No '' @ [dquote] @ ''a'' @ str_of_int (k + 1) @ [dquote] @
                  '' column at line: '' @ str_of_nat nr))"
  using assms(2) unfolding process_record_def Let_def assms(1)[symmetric]
  by (auto simp: runtime_error_def assms(1)[symmetric])

text \<open>
  Claim C10 on an unmatched LEFT JOIN record.  In the query
  \<open>select b3 left join B on a2 == b1\<close> the B table has two columns.  For the A record
  with the key \<open>car\<close>, which B holds, the index is reported as \<open>No "a3" column at line: 1\<close>;
  for the A record with the key \<open>boat\<close>, which B lacks, \<open>bfields\<close> is the plain list
  of \<open>None\<close> and the same index is reported as
  \<open>Error at line: 1, Details: list index out of range\<close>.
\<close>

theorem bad_b_index_unmatched_left_join:
  "make_joiner LeftJoinerT tab 0 ''B'' (Some car_table)
     = Inr (Some (LeftJoiner [(PStr ''car'', RbqlList [PStr ''car'', PStr ''gas''])] 2)) \<and>
   snd (rb_transform
       (left_join_plan (Some (LeftJoiner [(PStr ''car'', RbqlList [PStr ''car'', PStr ''gas''])] 2)) 2)
       (''5'' @ [tab] @ ''car'' @ [newline]))
     = Some (RbqlRuntimeError (''No '' @ [dquote] @ ''a3'' @ [dquote] @ '' column at line: 1'')) \<and>
   snd (rb_transform
       (left_join_plan (Some (LeftJoiner [(PStr ''car'', RbqlList [PStr ''car'', PStr ''gas''])] 2)) 2)
       (''5'' @ [tab] @ ''boat'' @ [newline]))
     = Some (RbqlRuntimeError ''Error at line: 1, Details: list index out of range'') \<and>
   make_joiner LeftJoinerT tab 2 ''B'' (Some car_table)
     = Inl (RbqlRuntimeError
             (''No '' @ [dquote] @ ''b3'' @ [dquote] @ '' column at line: 1 in '' @ [dquote] @
              ''B'' @ [dquote] @ '' table''))"
  by code_simp


end
